theory Spec2Isabelle
  imports Main "HOL-Library.Word"
begin

section \<open>Data model\<close>

text \<open>
  The automaton of \<open>nfa.ts\<close> is a graph of mutable objects that refer to each other. It is
  modelled with an explicit store: a list of states, a state's address being its index.
  \<open>createState\<close> allocates at the end of the store, so an address is never reused.
  The \<open>transition\<close> object is a map from property keys (strings) to addresses, the
  \<open>epsilonTransitions\<close> array a list of addresses.
\<close>

subsection \<open>Strings\<close>

text \<open>
  A string of the program is a sequence of UTF-16 code units. Indexing (\<open>pattern[pos]\<close>)
  reads one code unit. Iterating (\<open>for (const symbol of word)\<close>) reads code points: a high
  surrogate that is followed by a low surrogate is read together with it as one string of
  two units, every other unit as a string of one unit.
\<close>

type_synonym cunit = "16 word"

type_synonym jstring = "cunit list"

definition highSurrogate :: "cunit \<Rightarrow> bool" where
  "highSurrogate c \<longleftrightarrow> 0xD800 \<le> c \<and> c \<le> 0xDBFF"

definition lowSurrogate :: "cunit \<Rightarrow> bool" where
  "lowSurrogate c \<longleftrightarrow> 0xDC00 \<le> c \<and> c \<le> 0xDFFF"

text \<open>The values that the string iterator yields.\<close>

fun codePoints :: "jstring \<Rightarrow> jstring list" where
  "codePoints [] = []"
| "codePoints [a] = [[a]]"
| "codePoints (a # b # r) =
     (if highSurrogate a \<and> lowSurrogate b then [a, b] # codePoints r
      else [a] # codePoints (b # r))"

text \<open>
  The characters that the source names are among the first 256: \<open>cu\<close> is the code unit
  of such a character, \<open>js\<close> the string of a string literal of the source.
\<close>

definition cu :: "char \<Rightarrow> cunit" where
  "cu c = of_nat (of_char c)"

definition js :: "string \<Rightarrow> jstring" where
  "js s = map cu s"

subsection \<open>States, automata, parse trees\<close>

record FA_State =
  isEnd :: bool
  transition :: "jstring \<rightharpoonup> nat"
  epsilonTransitions :: "nat list"

type_synonym heap = "FA_State list"

text \<open>The pair \<open>{start, end}\<close>; \<open>end\<close> is spelled \<open>end'\<close>.\<close>

record NFA =
  start :: nat
  end' :: nat

text \<open>
  Reading a state. A reference of the program always points to an object; an address that
  no object has reads as a state without transitions.
\<close>

definition deref :: "heap \<Rightarrow> nat \<Rightarrow> FA_State" where
  "deref h a = (if a < length h then h ! a
     else \<lparr>isEnd = False, transition = Map.empty, epsilonTransitions = []\<rparr>)"

text \<open>A label of a tree node is a string, or \<open>undefined\<close> (\<open>None\<close>); \<open>children\<close> is optional.\<close>

datatype TreeNode = TreeNode (label: "jstring option") (children: "TreeNode list option")

datatype error =
    UnexpectedSymbol "cunit option"
  | UnexpectedMetaChar "cunit option"
  | UnrecognizedNode "jstring option"
  | TypeError

section \<open>NFA primitives (nfa.ts)\<close>

definition createState :: "bool \<Rightarrow> heap \<Rightarrow> nat \<times> heap" where
  "createState b h =
     (length h, h @ [\<lparr>isEnd = b, transition = Map.empty, epsilonTransitions = []\<rparr>])"

definition addEpsilonTransition :: "nat \<Rightarrow> nat \<Rightarrow> heap \<Rightarrow> heap" where
  "addEpsilonTransition frm to h =
     h[frm := (h ! frm)\<lparr>epsilonTransitions := epsilonTransitions (h ! frm) @ [to]\<rparr>]"

definition addTransition :: "nat \<Rightarrow> nat \<Rightarrow> jstring \<Rightarrow> heap \<Rightarrow> heap" where
  "addTransition frm to symbol h =
     h[frm := (h ! frm)\<lparr>transition := (transition (h ! frm))(symbol \<mapsto> to)\<rparr>]"

text \<open>The assignment \<open>s.isEnd = b\<close>.\<close>

definition setIsEnd :: "nat \<Rightarrow> bool \<Rightarrow> heap \<Rightarrow> heap" where
  "setIsEnd a b h = h[a := (h ! a)\<lparr>isEnd := b\<rparr>]"

text \<open>The property key of a value used as an index: \<open>undefined\<close> becomes the string "undefined".\<close>

definition propertyKey :: "jstring option \<Rightarrow> jstring" where
  "propertyKey v = (case v of None \<Rightarrow> (js ''undefined'') | Some s \<Rightarrow> s)"

definition fromEpsilon :: "heap \<Rightarrow> NFA \<times> heap" where
  "fromEpsilon h =
     (let (s, h1) = createState False h;
          (e, h2) = createState True h1;
          h3 = addEpsilonTransition s e h2
      in (\<lparr>start = s, end' = e\<rparr>, h3))"

definition fromSymbol :: "jstring option \<Rightarrow> heap \<Rightarrow> NFA \<times> heap" where
  "fromSymbol symbol h =
     (let (s, h1) = createState False h;
          (e, h2) = createState True h1;
          h3 = addTransition s e (propertyKey symbol) h2
      in (\<lparr>start = s, end' = e\<rparr>, h3))"

definition concat_nfa :: "NFA \<Rightarrow> NFA \<Rightarrow> heap \<Rightarrow> NFA \<times> heap" where
  "concat_nfa first second h =
     (let h1 = addEpsilonTransition (end' first) (start second) h;
          h2 = setIsEnd (end' first) False h1
      in (\<lparr>start = start first, end' = end' second\<rparr>, h2))"

definition union_nfa :: "NFA \<Rightarrow> NFA \<Rightarrow> heap \<Rightarrow> NFA \<times> heap" where
  "union_nfa first second h =
     (let (s, h1) = createState False h;
          h2 = addEpsilonTransition s (start first) h1;
          h3 = addEpsilonTransition s (start second) h2;
          (e, h4) = createState True h3;
          h5 = addEpsilonTransition (end' first) e h4;
          h6 = setIsEnd (end' first) False h5;
          h7 = addEpsilonTransition (end' second) e h6;
          h8 = setIsEnd (end' second) False h7
      in (\<lparr>start = s, end' = e\<rparr>, h8))"

definition closure :: "NFA \<Rightarrow> heap \<Rightarrow> NFA \<times> heap" where
  "closure nfa h =
     (let (s, h1) = createState False h;
          (e, h2) = createState True h1;
          h3 = addEpsilonTransition s e h2;
          h4 = addEpsilonTransition s (start nfa) h3;
          h5 = addEpsilonTransition (end' nfa) e h4;
          h6 = addEpsilonTransition (end' nfa) (start nfa) h5;
          h7 = setIsEnd (end' nfa) False h6
      in (\<lparr>start = s, end' = e\<rparr>, h7))"

definition zeroOrOne :: "NFA \<Rightarrow> heap \<Rightarrow> NFA \<times> heap" where
  "zeroOrOne nfa h =
     (let (s, h1) = createState False h;
          (e, h2) = createState True h1;
          h3 = addEpsilonTransition s e h2;
          h4 = addEpsilonTransition s (start nfa) h3;
          h5 = addEpsilonTransition (end' nfa) e h4;
          h6 = setIsEnd (end' nfa) False h5
      in (\<lparr>start = s, end' = e\<rparr>, h6))"

definition oneOrMore :: "NFA \<Rightarrow> heap \<Rightarrow> NFA \<times> heap" where
  "oneOrMore nfa h =
     (let (s, h1) = createState False h;
          (e, h2) = createState True h1;
          h3 = addEpsilonTransition s (start nfa) h2;
          h4 = addEpsilonTransition (end' nfa) e h3;
          h5 = addEpsilonTransition (end' nfa) (start nfa) h4;
          h6 = setIsEnd (end' nfa) False h5
      in (\<lparr>start = s, end' = e\<rparr>, h6))"

section \<open>The postfix compiler (toNFA)\<close>

text \<open>
  One turn of the loop over the tokens, the code points of the postfix expression. The
  stack is a list whose head is the top.
  \<open>stack.pop()\<close> on an empty array returns \<open>undefined\<close> and leaves it empty; the two pops of
  a binary operator happen before the test, so a lone operand is removed.
\<close>

fun toNFA_step :: "jstring \<Rightarrow> NFA list \<times> heap \<Rightarrow> NFA list \<times> heap" where
  "toNFA_step token (stack, h) =
     (if token = [cu CHR ''*''] then
        (case stack of [] \<Rightarrow> ([], h)
         | s0 # rest \<Rightarrow> (let (n, h1) = closure s0 h in (n # rest, h1)))
      else if token = [cu CHR ''?''] then
        (case stack of [] \<Rightarrow> ([], h)
         | s0 # rest \<Rightarrow> (let (n, h1) = zeroOrOne s0 h in (n # rest, h1)))
      else if token = [cu CHR ''+''] then
        (case stack of [] \<Rightarrow> ([], h)
         | s0 # rest \<Rightarrow> (let (n, h1) = oneOrMore s0 h in (n # rest, h1)))
      else if token = [cu CHR ''|''] then
        (case stack of [] \<Rightarrow> ([], h)
         | [right] \<Rightarrow> ([], h)
         | right # left # rest \<Rightarrow> (let (n, h1) = union_nfa left right h in (n # rest, h1)))
      else if token = [cu CHR ''.''] then
        (case stack of [] \<Rightarrow> ([], h)
         | [right] \<Rightarrow> ([], h)
         | right # left # rest \<Rightarrow> (let (n, h1) = concat_nfa left right h in (n # rest, h1)))
      else (let (n, h1) = fromSymbol (Some token) h in (n # stack, h1)))"

text \<open>The result is an NFA, or \<open>undefined\<close> (\<open>None\<close>) when the stack ends empty.\<close>

definition toNFA :: "jstring \<Rightarrow> heap \<Rightarrow> NFA option \<times> heap" where
  "toNFA postfixExp h =
     (if postfixExp = [] then (let (n, h1) = fromEpsilon h in (Some n, h1))
      else (let (stack, h1) = fold toNFA_step (codePoints postfixExp) ([], h)
            in (case stack of [] \<Rightarrow> None | n # rest \<Rightarrow> Some n, h1)))"

section \<open>The parser (parser.ts)\<close>

text \<open>
  The module-level variables \<open>pattern\<close> and \<open>pos\<close> are the parser's state; every function
  of the parser reads and writes them, so they are threaded through. A throw is \<open>Inl\<close>.
  \<open>pattern[pos]\<close> past the end of the string is \<open>undefined\<close>, here \<open>None\<close>.
\<close>

record PState =
  pattern :: jstring
  pos :: nat

definition peek :: "PState \<Rightarrow> cunit option" where
  "peek s = (if pos s < length (pattern s) then Some (pattern s ! pos s) else None)"

definition hasMoreChars :: "PState \<Rightarrow> bool" where
  "hasMoreChars s = (pos s < length (pattern s))"

definition isMetaChar :: "cunit option \<Rightarrow> bool" where
  "isMetaChar ch = (ch = Some (cu CHR ''*'') \<or> ch = Some (cu CHR ''+'') \<or> ch = Some (cu CHR ''?''))"

definition match :: "cunit option \<Rightarrow> PState \<Rightarrow> error + (unit \<times> PState)" where
  "match ch s = (if peek s \<noteq> ch then Inl (UnexpectedSymbol ch)
                 else Inr ((), s\<lparr>pos := pos s + 1\<rparr>))"

definition next_ch :: "PState \<Rightarrow> error + (cunit option \<times> PState)" where
  "next_ch s = (let ch = peek s in
                case match ch s of Inl e \<Rightarrow> Inl e | Inr (u, s1) \<Rightarrow> Inr (ch, s1))"

text \<open>The object literals \<open>{label: l}\<close> and \<open>{label: l, children: cs}\<close>.\<close>

definition leaf :: "jstring option \<Rightarrow> TreeNode" where
  "leaf l = TreeNode l None"

definition node :: "jstring \<Rightarrow> TreeNode list \<Rightarrow> TreeNode" where
  "node l cs = TreeNode (Some l) (Some cs)"

text \<open>A code unit read from the pattern, as a label: a string of one unit or \<open>undefined\<close>.\<close>

definition str :: "cunit option \<Rightarrow> jstring option" where
  "str ch = map_option (\<lambda>c. [c]) ch"

definition char_r :: "PState \<Rightarrow> error + (TreeNode \<times> PState)" where
  "char_r s =
     (if isMetaChar (peek s) then Inl (UnexpectedMetaChar (peek s))
      else if peek s = Some (cu (CHR 0x5C)) then
        (case match (Some (cu (CHR 0x5C))) s of Inl e \<Rightarrow> Inl e | Inr (u, s1) \<Rightarrow>
          (case next_ch s1 of Inl e \<Rightarrow> Inl e | Inr (c, s2) \<Rightarrow>
             Inr (node (js ''Char'') [leaf (Some [cu (CHR 0x5C)]), leaf (str c)], s2)))
      else
        (case next_ch s of Inl e \<Rightarrow> Inl e | Inr (c, s1) \<Rightarrow>
           Inr (node (js ''Char'') [leaf (str c)], s1)))"

function (domintros) expr :: "PState \<Rightarrow> error + (TreeNode \<times> PState)"
  and term_r :: "PState \<Rightarrow> error + (TreeNode \<times> PState)"
  and factor :: "PState \<Rightarrow> error + (TreeNode \<times> PState)"
  and atom :: "PState \<Rightarrow> error + (TreeNode \<times> PState)"
where
  "expr s =
     (case term_r s of Inl e \<Rightarrow> Inl e | Inr (trm, s1) \<Rightarrow>
        if hasMoreChars s1 \<and> peek s1 = Some (cu CHR ''|'') then
          (case match (Some (cu CHR ''|'')) s1 of Inl e \<Rightarrow> Inl e | Inr (u, s2) \<Rightarrow>
            (case expr s2 of Inl e \<Rightarrow> Inl e | Inr (exp', s3) \<Rightarrow>
               Inr (node (js ''Expr'') [trm, leaf (Some [cu CHR ''|'']), exp'], s3)))
        else Inr (node (js ''Expr'') [trm], s1))"
| "term_r s =
     (case factor s of Inl e \<Rightarrow> Inl e | Inr (factr, s1) \<Rightarrow>
        if hasMoreChars s1 \<and> peek s1 \<noteq> Some (cu CHR '')'') \<and> peek s1 \<noteq> Some (cu CHR ''|'') then
          (case term_r s1 of Inl e \<Rightarrow> Inl e | Inr (trm, s2) \<Rightarrow>
             Inr (node (js ''Term'') [factr, trm], s2))
        else Inr (node (js ''Term'') [factr], s1))"
| "factor s =
     (case atom s of Inl e \<Rightarrow> Inl e | Inr (atm, s1) \<Rightarrow>
        if hasMoreChars s1 \<and> isMetaChar (peek s1) then
          (case next_ch s1 of Inl e \<Rightarrow> Inl e | Inr (meta, s2) \<Rightarrow>
             Inr (node (js ''Factor'') [atm, leaf (str meta)], s2))
        else Inr (node (js ''Factor'') [atm], s1))"
| "atom s =
     (if peek s = Some (cu CHR ''('') then
        (case match (Some (cu CHR ''('')) s of Inl e \<Rightarrow> Inl e | Inr (u, s1) \<Rightarrow>
          (case expr s1 of Inl e \<Rightarrow> Inl e | Inr (exp', s2) \<Rightarrow>
            (case match (Some (cu CHR '')'')) s2 of Inl e \<Rightarrow> Inl e | Inr (u', s3) \<Rightarrow>
               Inr (node (js ''Atom'') [leaf (Some [cu CHR ''('']), exp', leaf (Some [cu CHR '')''])], s3))))
      else
        (case char_r s of Inl e \<Rightarrow> Inl e | Inr (ch, s1) \<Rightarrow>
           Inr (node (js ''Atom'') [ch], s1)))"
  by pat_completeness auto

lemma match_adv:
  "match ch s = Inr (u, s1) \<Longrightarrow> pattern s1 = pattern s \<and> pos s1 = pos s + 1"
  by (auto simp: match_def split: if_splits)

lemma next_ch_adv:
  "next_ch s = Inr (c, s1) \<Longrightarrow> pattern s1 = pattern s \<and> pos s1 = pos s + 1"
  by (auto simp: next_ch_def Let_def split: sum.splits dest: match_adv)

lemma char_r_adv:
  "char_r s = Inr (t, s1) \<Longrightarrow> pattern s1 = pattern s \<and> pos s < pos s1"
  by (auto simp: char_r_def split: sum.splits if_splits dest!: match_adv next_ch_adv)

text \<open>Every rule that returns has moved the cursor forward, on the same pattern.\<close>

lemma parser_adv:
  "expr_term_r_factor_atom_dom (Inl (Inl s)) \<Longrightarrow> expr s = Inr (t, s1)
     \<Longrightarrow> pattern s1 = pattern s \<and> pos s < pos s1"
  "expr_term_r_factor_atom_dom (Inl (Inr s)) \<Longrightarrow> term_r s = Inr (t, s1)
     \<Longrightarrow> pattern s1 = pattern s \<and> pos s < pos s1"
  "expr_term_r_factor_atom_dom (Inr (Inl s)) \<Longrightarrow> factor s = Inr (t, s1)
     \<Longrightarrow> pattern s1 = pattern s \<and> pos s < pos s1"
  "expr_term_r_factor_atom_dom (Inr (Inr s)) \<Longrightarrow> atom s = Inr (t, s1)
     \<Longrightarrow> pattern s1 = pattern s \<and> pos s < pos s1"
proof (induction s and s and s and s arbitrary: t s1 and t s1 and t s1 and t s1
    rule: expr_term_r_factor_atom.pinduct)
  case (1 s)
  note eq = expr.psimps[OF 1(1)]
  from 1(4) obtain trm sa where T: "term_r s = Inr (trm, sa)"
    by (auto simp: eq split: sum.splits)
  have A: "pattern sa = pattern s \<and> pos s < pos sa" using 1(2)[OF T] .
  show ?case
  proof (cases "hasMoreChars sa \<and> peek sa = Some (cu CHR ''|'')")
    case True
    from 1(4) T True obtain sb where M: "match (Some (cu CHR ''|'')) sa = Inr ((), sb)"
      by (auto simp: eq split: sum.splits)
    from 1(4) T True M obtain e' where E: "expr sb = Inr (e', s1)"
      by (auto simp: eq split: sum.splits)
    have "pattern s1 = pattern sb \<and> pos sb < pos s1"
      using 1(3)[OF T refl True M refl E] .
    with A match_adv[OF M] show ?thesis by simp
  next
    case False
    with 1(4) T have "s1 = sa" by (auto simp: eq split: sum.splits)
    with A show ?thesis by simp
  qed
next
  case (2 s)
  note eq = term_r.psimps[OF 2(1)]
  from 2(4) obtain f sa where T: "factor s = Inr (f, sa)"
    by (auto simp: eq split: sum.splits)
  have A: "pattern sa = pattern s \<and> pos s < pos sa" using 2(2)[OF T] .
  show ?case
  proof (cases "hasMoreChars sa \<and> peek sa \<noteq> Some (cu CHR '')'') \<and> peek sa \<noteq> Some (cu CHR ''|'')")
    case True
    from 2(4) T True obtain e' where E: "term_r sa = Inr (e', s1)"
      by (auto simp: eq split: sum.splits)
    have "pattern s1 = pattern sa \<and> pos sa < pos s1"
      using 2(3)[OF T refl True E] .
    with A show ?thesis by simp
  next
    case False
    with 2(4) T have "s1 = sa" by (auto simp: eq split: sum.splits)
    with A show ?thesis by simp
  qed
next
  case (3 s)
  note eq = factor.psimps[OF 3(1)]
  from 3(3) obtain f sa where T: "atom s = Inr (f, sa)"
    by (auto simp: eq split: sum.splits)
  have A: "pattern sa = pattern s \<and> pos s < pos sa" using 3(2)[OF T] .
  show ?case
  proof (cases "hasMoreChars sa \<and> isMetaChar (peek sa)")
    case True
    from 3(3) T True obtain m where E: "next_ch sa = Inr (m, s1)"
      by (auto simp: eq split: sum.splits)
    with A next_ch_adv[OF E] show ?thesis by simp
  next
    case False
    with 3(3) T have "s1 = sa" by (auto simp: eq split: sum.splits)
    with A show ?thesis by simp
  qed
next
  case (4 s)
  note eq = atom.psimps[OF 4(1)]
  show ?case
  proof (cases "peek s = Some (cu CHR ''('')")
    case True
    from 4(3) True obtain sa where M: "match (Some (cu CHR ''('')) s = Inr ((), sa)"
      by (auto simp: eq split: sum.splits)
    from 4(3) True M obtain e' sb where E: "expr sa = Inr (e', sb)"
      by (auto simp: eq split: sum.splits)
    from 4(3) True M E have M2: "match (Some (cu CHR '')'')) sb = Inr ((), s1)"
      by (auto simp: eq split: sum.splits)
    have "pattern sb = pattern sa \<and> pos sa < pos sb"
      using 4(2)[OF True M refl E] .
    with match_adv[OF M] match_adv[OF M2] show ?thesis by simp
  next
    case False
    with 4(3) obtain c where "char_r s = Inr (c, s1)"
      by (auto simp: eq split: sum.splits)
    then show ?thesis by (rule char_r_adv)
  qed
qed

termination expr
proof (relation "inv_image (less_than <*lex*> less_than)
    (\<lambda>x. case x of
        Inl (Inl s) \<Rightarrow> (length (pattern s) - pos s, 3::nat)
      | Inl (Inr s) \<Rightarrow> (length (pattern s) - pos s, 2)
      | Inr (Inl s) \<Rightarrow> (length (pattern s) - pos s, 1)
      | Inr (Inr s) \<Rightarrow> (length (pattern s) - pos s, 0))", goal_cases)
  case 1
  show ?case by (intro wf_inv_image wf_lex_prod wf_less_than)
next
  case (2 s)
  show ?case by simp
next
  case (3 s b x y ba xa ya)
  from 3 have T: "term_r s = Inr (x, y)" and M: "match (Some (cu CHR ''|'')) y = Inr (xa, ya)"
    by simp_all
  from parser_adv(2)[OF 3(6) T] match_adv[OF M] 3(3)
  show ?case by (auto simp: hasMoreChars_def)
next
  case (4 s)
  show ?case by simp
next
  case (5 s b x y)
  from 5 have T: "factor s = Inr (x, y)" by simp
  from parser_adv(3)[OF 5(4) T] 5(3)
  show ?case by (auto simp: hasMoreChars_def)
next
  case (6 s)
  show ?case by simp
next
  case (7 s b x y)
  from 7 have M: "match (Some (cu CHR ''('')) s = Inr (x, y)" by simp
  from match_adv[OF M] 7(1)
  show ?case by (auto simp: peek_def split: if_splits)
qed

declare expr.simps [simp del] term_r.simps [simp del] factor.simps [simp del]
  atom.simps [simp del]

text \<open>
  \<open>toParseTree\<close> assigns the two module-level variables and runs \<open>expr\<close>. The state it is
  called in is its second argument; the state it leaves is part of its result.
\<close>

definition toParseTree :: "jstring \<Rightarrow> PState \<Rightarrow> error + (TreeNode \<times> PState)" where
  "toParseTree regex g = expr (g\<lparr>pattern := regex, pos := 0\<rparr>)"

section \<open>The tree compiler (toNFAfromParseTree)\<close>

text \<open>
  \<open>cs[i]\<close> on an array: \<open>undefined\<close> past its end. The compiler called with
  \<open>undefined\<close> throws a TypeError when it reads \<open>root.children\<close>, as reading a
  property of \<open>undefined\<close> does.
\<close>

definition child :: "TreeNode list \<Rightarrow> nat \<Rightarrow> TreeNode option" where
  "child cs i = (if i < length cs then Some (cs ! i) else None)"

function toNFAfromParseTree :: "TreeNode \<Rightarrow> heap \<Rightarrow> error + (NFA \<times> heap)" where
  "toNFAfromParseTree (TreeNode lbl None) h = Inl (UnrecognizedNode lbl)"
| "toNFAfromParseTree (TreeNode lbl (Some cs)) h =
     (if lbl = Some (js ''Expr'') then
        (case child cs 0 of None \<Rightarrow> Inl TypeError | Some c0 \<Rightarrow>
          (case toNFAfromParseTree c0 h of Inl e \<Rightarrow> Inl e | Inr (trm, h1) \<Rightarrow>
             if length cs = 3 then
               (case toNFAfromParseTree (cs ! 2) h1 of Inl e \<Rightarrow> Inl e | Inr (r, h2) \<Rightarrow>
                  Inr (union_nfa trm r h2))
             else Inr (trm, h1)))
      else if lbl = Some (js ''Term'') then
        (case child cs 0 of None \<Rightarrow> Inl TypeError | Some c0 \<Rightarrow>
          (case toNFAfromParseTree c0 h of Inl e \<Rightarrow> Inl e | Inr (factr, h1) \<Rightarrow>
             if length cs = 2 then
               (case toNFAfromParseTree (cs ! 1) h1 of Inl e \<Rightarrow> Inl e | Inr (r, h2) \<Rightarrow>
                  Inr (concat_nfa factr r h2))
             else Inr (factr, h1)))
      else if lbl = Some (js ''Factor'') then
        (case child cs 0 of None \<Rightarrow> Inl TypeError | Some c0 \<Rightarrow>
          (case toNFAfromParseTree c0 h of Inl e \<Rightarrow> Inl e | Inr (atm, h1) \<Rightarrow>
             if length cs = 2 then
               (let meta = label (cs ! 1) in
                if meta = Some [cu CHR ''*''] then Inr (closure atm h1)
                else if meta = Some [cu CHR ''+''] then Inr (oneOrMore atm h1)
                else if meta = Some [cu CHR ''?''] then Inr (zeroOrOne atm h1)
                else Inr (atm, h1))
             else Inr (atm, h1)))
      else if lbl = Some (js ''Atom'') then
        (if length cs = 3 then toNFAfromParseTree (cs ! 1) h
         else (case child cs 0 of None \<Rightarrow> Inl TypeError | Some c0 \<Rightarrow>
                 toNFAfromParseTree c0 h))
      else if lbl = Some (js ''Char'') then
        (if length cs = 2 then Inr (fromSymbol (label (cs ! 1)) h)
         else (case child cs 0 of None \<Rightarrow> Inl TypeError | Some c0 \<Rightarrow>
                 Inr (fromSymbol (label c0) h)))
      else Inl (UnrecognizedNode lbl))"
  by pat_completeness auto

lemma size_child: "i < length cs \<Longrightarrow> size (cs ! i) \<le> Suc (size_list size cs)"
proof -
  assume "i < length cs"
  then have "cs ! i \<in> set cs" by simp
  then have "size (cs ! i) \<le> size_list size cs" by (rule size_list_estimation') simp
  then show ?thesis by simp
qed

termination toNFAfromParseTree
  by (relation "measure (\<lambda>(t, h). size t)")
     (auto simp: child_def less_Suc_eq_le intro!: size_child split: if_splits)

text \<open>
  The empty pattern is compiled without the parser. The world of the function is the
  parser's variables and the store.
\<close>

definition toNFAFromInfixExp ::
  "jstring \<Rightarrow> PState \<times> heap \<Rightarrow> error + (NFA \<times> PState \<times> heap)" where
  "toNFAFromInfixExp infixExp w =
     (case w of (g, h) \<Rightarrow>
        if infixExp = [] then (let (n, h1) = fromEpsilon h in Inr (n, g, h1))
        else (case toParseTree infixExp g of Inl e \<Rightarrow> Inl e | Inr (t, g1) \<Rightarrow>
               (case toNFAfromParseTree t h of Inl e \<Rightarrow> Inl e | Inr (n, h1) \<Rightarrow>
                  Inr (n, g1, h1))))"

section \<open>The matching engine\<close>

text \<open>
  \<open>addNextState\<close> pushes onto the two arrays it is given; the pair of them is passed
  and returned. \<open>addNextState_loop\<close> is its \<open>for\<close> loop over the epsilon targets.
\<close>

function addNextState :: "heap \<Rightarrow> nat \<Rightarrow> nat list \<times> nat list \<Rightarrow> nat list \<times> nat list"
  and addNextState_loop :: "heap \<Rightarrow> nat list \<Rightarrow> nat list \<times> nat list \<Rightarrow> nat list \<times> nat list"
where
  "addNextState h state (nextStates, visited) =
     (if epsilonTransitions (deref h state) \<noteq> []
      then addNextState_loop h (epsilonTransitions (deref h state)) (nextStates, visited)
      else (nextStates @ [state], visited))"
| "addNextState_loop h [] (nextStates, visited) = (nextStates, visited)"
| "addNextState_loop h (st # sts) (nextStates, visited) =
     (if st \<notin> set visited
      then addNextState_loop h sts (addNextState h st (nextStates, visited @ [st]))
      else addNextState_loop h sts (nextStates, visited))"
  by pat_completeness auto

lemma visited_grows:
  "addNextState_addNextState_loop_dom (Inl (h, s, nv))
     \<Longrightarrow> set (snd nv) \<subseteq> set (snd (addNextState h s nv))"
  "addNextState_addNextState_loop_dom (Inr (h, sts, nv))
     \<Longrightarrow> set (snd nv) \<subseteq> set (snd (addNextState_loop h sts nv))"
proof (induction h s nv and h sts nv rule: addNextState_addNextState_loop.pinduct)
  case (1 h state nextStates visited)
  then show ?case by (simp add: addNextState.psimps)
next
  case (2 h nextStates visited)
  then show ?case by (simp add: addNextState_loop.psimps)
next
  case (3 h st sts nextStates visited)
  then show ?case
    apply (simp add: addNextState_loop.psimps split: if_splits)
    apply (cases "addNextState h st (nextStates, visited @ [st])")
    apply auto
    done
qed

text \<open>Every address that some state of the store has as an epsilon target.\<close>

definition targets :: "heap \<Rightarrow> nat set" where
  "targets h = (\<Union>a\<in>{..<length h}. set (epsilonTransitions (h ! a)))"

lemma finite_targets: "finite (targets h)"
  by (simp add: targets_def)

lemma eps_in_targets: "set (epsilonTransitions (deref h s)) \<subseteq> targets h"
  by (auto simp: deref_def targets_def)

termination addNextState
proof (relation "inv_image (less_than <*lex*> less_than <*lex*> less_than)
    (\<lambda>x. case x of
        Inl (h, s, ns, vs) \<Rightarrow> (card (targets h - set vs), Suc 0, 0)
      | Inr (h, sts, ns, vs) \<Rightarrow> (card ((targets h \<union> set sts) - set vs), 0, length sts))",
    goal_cases)
  case 1
  show ?case by (intro wf_inv_image wf_lex_prod wf_less_than)
next
  case (2 h state nextStates visited)
  have "targets h \<union> set (epsilonTransitions (deref h state)) = targets h"
    using eps_in_targets[of h state] by auto
  then show ?case by simp
next
  case (3 h st sts nextStates visited)
  have "targets h - set (visited @ [st]) \<subset> (targets h \<union> set (st # sts)) - set visited"
    using 3 by auto
  then have "card (targets h - set (visited @ [st]))
      < card ((targets h \<union> set (st # sts)) - set visited)"
    by (intro psubset_card_mono) (auto simp: finite_targets)
  then show ?case by simp
next
  case (4 h st sts nextStates visited)
  obtain ns' vs' where r: "addNextState h st (nextStates, visited @ [st]) = (ns', vs')"
    by (cases "addNextState h st (nextStates, visited @ [st])")
  have sub: "set (visited @ [st]) \<subseteq> set vs'"
    using visited_grows(1)[OF 4(2)] r by simp
  have "(targets h \<union> set sts) - set vs' \<subseteq> (targets h \<union> set (st # sts)) - set visited"
    using sub by auto
  then have "card ((targets h \<union> set sts) - set vs')
      \<le> card ((targets h \<union> set (st # sts)) - set visited)"
    by (intro card_mono) (auto simp: finite_targets)
  then show ?case using r by auto
next
  case (5 h st sts nextStates visited)
  have "(targets h \<union> set sts) - set visited \<subseteq> (targets h \<union> set (st # sts)) - set visited"
    by auto
  then have "card ((targets h \<union> set sts) - set visited)
      \<le> card ((targets h \<union> set (st # sts)) - set visited)"
    by (intro card_mono) (auto simp: finite_targets)
  then show ?case by auto
qed

text \<open>
  The body of the loop over \<open>currentStates\<close>, for one input symbol. The symbols of a
  word are its code points.
\<close>

definition search_step :: "heap \<Rightarrow> jstring \<Rightarrow> nat list \<Rightarrow> nat list" where
  "search_step h symbol currentStates =
     fold (\<lambda>state nextStates.
             case transition (deref h state) symbol of
               None \<Rightarrow> nextStates
             | Some nextState \<Rightarrow> fst (addNextState h nextState (nextStates, [])))
          currentStates []"

definition search :: "heap \<Rightarrow> NFA \<Rightarrow> jstring \<Rightarrow> bool" where
  "search h nfa word =
     (let currentStates = fst (addNextState h (start nfa) ([], []));
          finalStates = fold (search_step h) (codePoints word) currentStates
      in list_ex (\<lambda>s. isEnd (deref h s)) finalStates)"

definition recognize :: "heap \<Rightarrow> NFA \<Rightarrow> jstring \<Rightarrow> bool" where
  "recognize h nfa word = search h nfa word"

section \<open>Runs of an automaton\<close>

text \<open>
  A run follows epsilon edges without reading, and reads a symbol (a property key) along the symbol
  transition of a state that has no epsilon edge: \<open>addNextState\<close> never puts a state with
  an epsilon edge into a set of current states, so \<open>search\<close> never follows the symbol
  transitions of such a state.
\<close>

abbreviation eps :: "heap \<Rightarrow> nat \<Rightarrow> nat list" where
  "eps h a \<equiv> epsilonTransitions (deref h a)"

abbreviation trn :: "heap \<Rightarrow> nat \<Rightarrow> jstring \<rightharpoonup> nat" where
  "trn h a \<equiv> transition (deref h a)"

abbreviation fin :: "heap \<Rightarrow> nat \<Rightarrow> bool" where
  "fin h a \<equiv> isEnd (deref h a)"

inductive path :: "heap \<Rightarrow> nat \<Rightarrow> jstring list \<Rightarrow> nat \<Rightarrow> bool" for h :: heap where
  path_refl: "path h p [] p"
| path_eps: "q \<in> set (eps h p) \<Longrightarrow> path h q w r \<Longrightarrow> path h p w r"
| path_sym: "eps h p = [] \<Longrightarrow> trn h p k = Some q \<Longrightarrow> path h q w r \<Longrightarrow> path h p (k # w) r"

text \<open>
  Bookkeeping for \<open>addNextState\<close>: a visited state is done when it is among the next
  states if it has no epsilon target, and all its epsilon targets are visited.
\<close>

definition done_st :: "heap \<Rightarrow> nat list \<times> nat list \<Rightarrow> nat \<Rightarrow> bool" where
  "done_st h nv x \<longleftrightarrow> (eps h x = [] \<longrightarrow> x \<in> set (fst nv)) \<and> set (eps h x) \<subseteq> set (snd nv)"

section \<open>Fragments and their languages\<close>

text \<open>
  A fragment is an NFA together with the set S of its states in the store: S holds the start
  and the end state and is closed under both kinds of transition; the end state is the only
  state of S whose \<open>isEnd\<close> is set, and it has no transition yet; every state of S has at
  most two epsilon targets, and epsilon targets or symbol transitions but not both. This is
  the state of a fragment that a primitive has returned and no operator has consumed.
\<close>

definition frag :: "heap \<Rightarrow> NFA \<Rightarrow> nat set \<Rightarrow> bool" where
  "frag h A S \<longleftrightarrow>
     start A \<in> S \<and> end' A \<in> S \<and> S \<subseteq> {..<length h} \<and>
     (\<forall>a\<in>S. set (eps h a) \<subseteq> S \<and> ran (trn h a) \<subseteq> S \<and> (fin h a \<longleftrightarrow> a = end' A) \<and>
             length (eps h a) \<le> 2 \<and> (eps h a = [] \<or> trn h a = Map.empty)) \<and>
     eps h (end' A) = [] \<and> trn h (end' A) = Map.empty"

text \<open>
  The sequences of symbols (property keys) that lead from the start state of a fragment to
  its end state.
\<close>

definition lang :: "heap \<Rightarrow> NFA \<Rightarrow> jstring list set" where
  "lang h A = {w. path h (start A) w (end' A)}"

text \<open>Concatenation and iteration of languages.\<close>

definition conc :: "'a list set \<Rightarrow> 'a list set \<Rightarrow> 'a list set" where
  "conc L1 L2 = {w. \<exists>u v. w = u @ v \<and> u \<in> L1 \<and> v \<in> L2}"

definition star :: "'a list set \<Rightarrow> 'a list set" where
  "star L = {w. \<exists>ws. w = concat ws \<and> set ws \<subseteq> L}"

text \<open>
  A word read one code unit at a time: each unit as a symbol of its own. The parser reads
  the pattern this way.
\<close>

definition symbols :: "jstring \<Rightarrow> jstring list" where
  "symbols w = map (\<lambda>c. [c]) w"

section \<open>Reference syntax and semantics of patterns\<close>

text \<open>
  The accepted surface, after the grammar of the specification (4.1, 6): a syntax tree per
  rule, the pattern it is written as (\<open>pat_expr\<close>), and the language it denotes under
  the standard semantics (\<open>lang_expr\<close>). A literal is any code unit but the seven that
  the syntax uses; a backslash makes a literal of any code unit. A pattern and a word are
  taken one code unit at a time here. These definitions follow the specification, not the
  code; the theorems below compare the code with them.
\<close>

datatype rx_meta = MStar | MPlus | MOpt

datatype rx_char = Lit cunit | Esc cunit

datatype rx_expr = ETerm rx_term | EAlt rx_term rx_expr
  and rx_term = TFactor rx_factor | TSeq rx_factor rx_term
  and rx_factor = FAtom rx_atom | FMeta rx_atom rx_meta
  and rx_atom = AChar rx_char | AGroup rx_expr

definition special :: "cunit \<Rightarrow> bool" where
  "special c \<longleftrightarrow> c \<in> {cu CHR ''|'', cu CHR ''*'', cu CHR ''+'', cu CHR ''?'', cu CHR ''('', cu CHR '')'', cu (CHR 0x5C)}"

fun meta_char :: "rx_meta \<Rightarrow> cunit" where
  "meta_char MStar = cu CHR ''*''"
| "meta_char MPlus = cu CHR ''+''"
| "meta_char MOpt = cu CHR ''?''"

fun pat_char :: "rx_char \<Rightarrow> jstring" where
  "pat_char (Lit c) = [c]"
| "pat_char (Esc c) = [cu (CHR 0x5C), c]"

primrec pat_expr :: "rx_expr \<Rightarrow> jstring"
  and pat_term :: "rx_term \<Rightarrow> jstring"
  and pat_factor :: "rx_factor \<Rightarrow> jstring"
  and pat_atom :: "rx_atom \<Rightarrow> jstring"
where
  "pat_expr (ETerm t) = pat_term t"
| "pat_expr (EAlt t e) = pat_term t @ [cu CHR ''|''] @ pat_expr e"
| "pat_term (TFactor f) = pat_factor f"
| "pat_term (TSeq f t) = pat_factor f @ pat_term t"
| "pat_factor (FAtom a) = pat_atom a"
| "pat_factor (FMeta a m) = pat_atom a @ [meta_char m]"
| "pat_atom (AChar c) = pat_char c"
| "pat_atom (AGroup e) = [cu CHR ''(''] @ pat_expr e @ [cu CHR '')'']"

fun wf_char :: "rx_char \<Rightarrow> bool" where
  "wf_char (Lit c) = (\<not> special c)"
| "wf_char (Esc c) = True"

primrec wf_expr :: "rx_expr \<Rightarrow> bool"
  and wf_term :: "rx_term \<Rightarrow> bool"
  and wf_factor :: "rx_factor \<Rightarrow> bool"
  and wf_atom :: "rx_atom \<Rightarrow> bool"
where
  "wf_expr (ETerm t) = wf_term t"
| "wf_expr (EAlt t e) = (wf_term t \<and> wf_expr e)"
| "wf_term (TFactor f) = wf_factor f"
| "wf_term (TSeq f t) = (wf_factor f \<and> wf_term t)"
| "wf_factor (FAtom a) = wf_atom a"
| "wf_factor (FMeta a m) = wf_atom a"
| "wf_atom (AChar c) = wf_char c"
| "wf_atom (AGroup e) = wf_expr e"

fun sym_char :: "rx_char \<Rightarrow> cunit" where
  "sym_char (Lit c) = c"
| "sym_char (Esc c) = c"

primrec lang_expr :: "rx_expr \<Rightarrow> jstring set"
  and lang_term :: "rx_term \<Rightarrow> jstring set"
  and lang_factor :: "rx_factor \<Rightarrow> jstring set"
  and lang_atom :: "rx_atom \<Rightarrow> jstring set"
where
  "lang_expr (ETerm t) = lang_term t"
| "lang_expr (EAlt t e) = lang_term t \<union> lang_expr e"
| "lang_term (TFactor f) = lang_factor f"
| "lang_term (TSeq f t) = conc (lang_factor f) (lang_term t)"
| "lang_factor (FAtom a) = lang_atom a"
| "lang_factor (FMeta a m) =
     (case m of MStar \<Rightarrow> star (lang_atom a)
      | MPlus \<Rightarrow> conc (lang_atom a) (star (lang_atom a))
      | MOpt \<Rightarrow> insert [] (lang_atom a))"
| "lang_atom (AChar c) = {[sym_char c]}"
| "lang_atom (AGroup e) = lang_expr e"

text \<open>
  The postfix form of a syntax tree, with \<open>.\<close> for concatenation. The postfix form has
  no escape: a pattern corresponds to its postfix form only if none of its literals is one
  of the five tokens that the postfix compiler reads as operators (\<open>plain_expr\<close>).
\<close>

primrec post_expr :: "rx_expr \<Rightarrow> jstring"
  and post_term :: "rx_term \<Rightarrow> jstring"
  and post_factor :: "rx_factor \<Rightarrow> jstring"
  and post_atom :: "rx_atom \<Rightarrow> jstring"
where
  "post_expr (ETerm t) = post_term t"
| "post_expr (EAlt t e) = post_term t @ post_expr e @ [cu CHR ''|'']"
| "post_term (TFactor f) = post_factor f"
| "post_term (TSeq f t) = post_factor f @ post_term t @ [cu CHR ''.'']"
| "post_factor (FAtom a) = post_atom a"
| "post_factor (FMeta a m) = post_atom a @ [meta_char m]"
| "post_atom (AChar c) = [sym_char c]"
| "post_atom (AGroup e) = post_expr e"

definition operator :: "cunit \<Rightarrow> bool" where
  "operator c \<longleftrightarrow> c \<in> {cu CHR ''*'', cu CHR ''?'', cu CHR ''+'', cu CHR ''|'', cu CHR ''.''}"

primrec plain_expr :: "rx_expr \<Rightarrow> bool"
  and plain_term :: "rx_term \<Rightarrow> bool"
  and plain_factor :: "rx_factor \<Rightarrow> bool"
  and plain_atom :: "rx_atom \<Rightarrow> bool"
where
  "plain_expr (ETerm t) = plain_term t"
| "plain_expr (EAlt t e) = (plain_term t \<and> plain_expr e)"
| "plain_term (TFactor f) = plain_factor f"
| "plain_term (TSeq f t) = (plain_factor f \<and> plain_term t)"
| "plain_factor (FAtom a) = plain_atom a"
| "plain_factor (FMeta a m) = plain_atom a"
| "plain_atom (AChar c) = (\<not> operator (sym_char c))"
| "plain_atom (AGroup e) = plain_expr e"

text \<open>The parse tree that the grammar assigns to a syntax tree.\<close>

fun tree_char :: "rx_char \<Rightarrow> TreeNode" where
  "tree_char (Lit c) = node (js ''Char'') [leaf (Some [c])]"
| "tree_char (Esc c) = node (js ''Char'') [leaf (Some [cu (CHR 0x5C)]), leaf (Some [c])]"

primrec tree_expr :: "rx_expr \<Rightarrow> TreeNode"
  and tree_term :: "rx_term \<Rightarrow> TreeNode"
  and tree_factor :: "rx_factor \<Rightarrow> TreeNode"
  and tree_atom :: "rx_atom \<Rightarrow> TreeNode"
where
  "tree_expr (ETerm t) = node (js ''Expr'') [tree_term t]"
| "tree_expr (EAlt t e) = node (js ''Expr'') [tree_term t, leaf (Some [cu CHR ''|'']), tree_expr e]"
| "tree_term (TFactor f) = node (js ''Term'') [tree_factor f]"
| "tree_term (TSeq f t) = node (js ''Term'') [tree_factor f, tree_term t]"
| "tree_factor (FAtom a) = node (js ''Factor'') [tree_atom a]"
| "tree_factor (FMeta a m) = node (js ''Factor'') [tree_atom a, leaf (Some [meta_char m])]"
| "tree_atom (AChar c) = node (js ''Atom'') [tree_char c]"
| "tree_atom (AGroup e) = node (js ''Atom'') [leaf (Some [cu CHR ''('']), tree_expr e, leaf (Some [cu CHR '')''])]"

text \<open>The parser's state with the cursor after \<open>pre\<close> and before \<open>rest\<close>.\<close>

definition at :: "jstring \<Rightarrow> jstring \<Rightarrow> PState" where
  "at pre rest = \<lparr>pattern = pre @ rest, pos = length pre\<rparr>"

text \<open>The first code unit of a pattern is not one that ends a term or a factor.\<close>

definition starter :: "cunit \<Rightarrow> bool" where
  "starter c \<longleftrightarrow> c \<notin> {cu CHR ''|'', cu CHR ''*'', cu CHR ''+'', cu CHR ''?'', cu CHR '')''}"

section \<open>Fragments as the compilers build them\<close>

text \<open>
  A fragment built on top of the store h: its states are exactly the states allocated since,
  and the older states are as they were.
\<close>

definition built :: "heap \<Rightarrow> heap \<Rightarrow> NFA \<Rightarrow> bool" where
  "built h h' N \<longleftrightarrow> frag h' N {length h..<length h'} \<and> length h < length h' \<and>
     (\<forall>a<length h. deref h' a = deref h a)"

text \<open>The stack of the postfix compiler: fragments on consecutive ranges of the store.\<close>

inductive stk :: "heap \<Rightarrow> nat \<Rightarrow> NFA list \<Rightarrow> bool" for h :: heap where
  stk_Nil: "hi \<le> length h \<Longrightarrow> stk h hi []"
| stk_Cons: "frag h N {lo..<hi} \<Longrightarrow> lo < hi \<Longrightarrow> hi \<le> length h \<Longrightarrow> stk h lo rest
    \<Longrightarrow> stk h hi (N # rest)"

section \<open>Further notions for the claims\<close>

text \<open>The states of a set that accept.\<close>

definition accepting :: "heap \<Rightarrow> nat set \<Rightarrow> nat set" where
  "accepting h S = {a \<in> S. isEnd (deref h a)}"

text \<open>The states that a state leads to, along transitions of either kind.\<close>

definition reachable :: "heap \<Rightarrow> nat \<Rightarrow> nat set" where
  "reachable h p =
     {q. (p, q) \<in> {(a, b). b \<in> set (epsilonTransitions (deref h a)) \<or>
                            b \<in> ran (transition (deref h a))}\<^sup>*}"

text \<open>
  The shape of a state in Thompson's construction, for the states an automaton can reach:
  at most two epsilon targets, and epsilon targets or symbol transitions but not both.
\<close>

definition thompson :: "heap \<Rightarrow> NFA \<Rightarrow> bool" where
  "thompson h N \<longleftrightarrow>
     (\<forall>a\<in>reachable h (start N).
        length (epsilonTransitions (deref h a)) \<le> 2 \<and>
        (epsilonTransitions (deref h a) = [] \<or> transition (deref h a) = Map.empty))"

text \<open>A store with two fragments, for \<open>a\<close> and for \<open>b\<close>.\<close>

definition hab :: heap where
  "hab = snd (fromSymbol (Some [cu CHR ''b'']) (snd (fromSymbol (Some [cu CHR ''a'']) [])))"

text \<open>The store after \<open>fromSymbol("a")\<close> on the empty store.\<close>

definition ha :: heap where
  "ha = [\<lparr>isEnd = False, transition = [[cu CHR ''a''] \<mapsto> 1], epsilonTransitions = []\<rparr>,
         \<lparr>isEnd = True, transition = Map.empty, epsilonTransitions = []\<rparr>]"

text \<open>
  The lists of symbols that the string iterator can yield: every symbol is one unit or a
  surrogate pair, and no high surrogate on its own is followed by a symbol that begins with
  a low surrogate.
\<close>

definition okkey :: "jstring \<Rightarrow> bool" where
  "okkey k \<longleftrightarrow> (\<exists>a. k = [a]) \<or> (\<exists>a b. k = [a, b] \<and> highSurrogate a \<and> lowSurrogate b)"

definition glue :: "jstring \<Rightarrow> jstring \<Rightarrow> bool" where
  "glue k k' \<longleftrightarrow> (\<exists>a. k = [a] \<and> highSurrogate a) \<and> k' \<noteq> [] \<and> lowSurrogate (hd k')"

fun canon :: "jstring list \<Rightarrow> bool" where
  "canon [] = True"
| "canon [k] = okkey k"
| "canon (k # k' # r) = (okkey k \<and> \<not> glue k k' \<and> canon (k' # r))"

text \<open>
  The stores inside an operator: the store after each statement of the operator that
  changes it, in the order of the statements. The last is the store that the operator
  leaves.
\<close>

definition union_trace :: "NFA \<Rightarrow> NFA \<Rightarrow> heap \<Rightarrow> heap list" where
  "union_trace first second h =
     (let (s, h1) = createState False h;
          h2 = addEpsilonTransition s (start first) h1;
          h3 = addEpsilonTransition s (start second) h2;
          (e, h4) = createState True h3;
          h5 = addEpsilonTransition (end' first) e h4;
          h6 = setIsEnd (end' first) False h5;
          h7 = addEpsilonTransition (end' second) e h6;
          h8 = setIsEnd (end' second) False h7
      in [h1, h2, h3, h4, h5, h6, h7, h8])"

definition closure_trace :: "NFA \<Rightarrow> heap \<Rightarrow> heap list" where
  "closure_trace nfa h =
     (let (s, h1) = createState False h;
          (e, h2) = createState True h1;
          h3 = addEpsilonTransition s e h2;
          h4 = addEpsilonTransition s (start nfa) h3;
          h5 = addEpsilonTransition (end' nfa) e h4;
          h6 = addEpsilonTransition (end' nfa) (start nfa) h5;
          h7 = setIsEnd (end' nfa) False h6
      in [h1, h2, h3, h4, h5, h6, h7])"

definition zeroOrOne_trace :: "NFA \<Rightarrow> heap \<Rightarrow> heap list" where
  "zeroOrOne_trace nfa h =
     (let (s, h1) = createState False h;
          (e, h2) = createState True h1;
          h3 = addEpsilonTransition s e h2;
          h4 = addEpsilonTransition s (start nfa) h3;
          h5 = addEpsilonTransition (end' nfa) e h4;
          h6 = setIsEnd (end' nfa) False h5
      in [h1, h2, h3, h4, h5, h6])"

definition oneOrMore_trace :: "NFA \<Rightarrow> heap \<Rightarrow> heap list" where
  "oneOrMore_trace nfa h =
     (let (s, h1) = createState False h;
          (e, h2) = createState True h1;
          h3 = addEpsilonTransition s (start nfa) h2;
          h4 = addEpsilonTransition (end' nfa) e h3;
          h5 = addEpsilonTransition (end' nfa) (start nfa) h4;
          h6 = setIsEnd (end' nfa) False h5
      in [h1, h2, h3, h4, h5, h6])"

text \<open>The string of the one character U+1F600: a high surrogate and a low surrogate.\<close>

definition smiley :: jstring where
  "smiley = [0xD83D, 0xDE00]"

text \<open>
  The store after the tree compiler has compiled the parse tree of that string on the empty
  store: the fragments of two literals of one unit each, concatenated.
\<close>

definition hpair :: heap where
  "hpair = [\<lparr>isEnd = False, transition = [[0xD83D] \<mapsto> 1], epsilonTransitions = []\<rparr>,
            \<lparr>isEnd = False, transition = Map.empty, epsilonTransitions = [2]\<rparr>,
            \<lparr>isEnd = False, transition = [[0xDE00] \<mapsto> 3], epsilonTransitions = []\<rparr>,
            \<lparr>isEnd = True, transition = Map.empty, epsilonTransitions = []\<rparr>]"

text \<open>
  The store after the postfix compiler has compiled the same string on the empty store: the
  fragment of one literal of two units.
\<close>

definition hone :: heap where
  "hone = [\<lparr>isEnd = False, transition = [[0xD83D, 0xDE00] \<mapsto> 1], epsilonTransitions = []\<rparr>,
           \<lparr>isEnd = True, transition = Map.empty, epsilonTransitions = []\<rparr>]"

text \<open>
  The store after \<open>union\<close> of the fragments of the two lone surrogates, built on the
  empty store.
\<close>

definition hsur :: heap where
  "hsur = [\<lparr>isEnd = False, transition = [[0xD83D] \<mapsto> 1], epsilonTransitions = []\<rparr>,
           \<lparr>isEnd = False, transition = Map.empty, epsilonTransitions = [5]\<rparr>,
           \<lparr>isEnd = False, transition = [[0xDE00] \<mapsto> 3], epsilonTransitions = []\<rparr>,
           \<lparr>isEnd = False, transition = Map.empty, epsilonTransitions = [5]\<rparr>,
           \<lparr>isEnd = False, transition = Map.empty, epsilonTransitions = [0, 2]\<rparr>,
           \<lparr>isEnd = True, transition = Map.empty, epsilonTransitions = []\<rparr>]"

text \<open>The store after \<open>closure\<close> of the fragment of \<open>a\<close>, built on the empty store.\<close>

definition hstar :: heap where
  "hstar = [\<lparr>isEnd = False, transition = [[cu CHR ''a''] \<mapsto> 1], epsilonTransitions = []\<rparr>,
            \<lparr>isEnd = False, transition = Map.empty, epsilonTransitions = [3, 0]\<rparr>,
            \<lparr>isEnd = False, transition = Map.empty, epsilonTransitions = [3, 0]\<rparr>,
            \<lparr>isEnd = True, transition = Map.empty, epsilonTransitions = []\<rparr>]"

section \<open>Code units of characters\<close>

lemma unat_cu: "unat (cu c) = of_char c"
proof -
  have "(of_char c :: nat) < 256" by simp
  then have "(of_char c :: nat) < 65536" by linarith
  then show ?thesis unfolding cu_def by (simp add: unat_of_nat)
qed

lemma cu_eq_iff [simp]: "cu c = cu d \<longleftrightarrow> c = d"
proof
  assume "cu c = cu d"
  then have "unat (cu c) = unat (cu d)" by simp
  then show "c = d" by (simp add: unat_cu)
qed simp

lemma cu_not_surrogate [simp]: "\<not> highSurrogate (cu c)" "\<not> lowSurrogate (cu c)"
proof -
  have "unat (cu c) < 256" by (simp add: unat_cu)
  then show "\<not> highSurrogate (cu c)" "\<not> lowSurrogate (cu c)"
    by (simp_all add: highSurrogate_def lowSurrogate_def word_le_nat_alt)
qed

lemma js_eq_iff [simp]: "js s = js t \<longleftrightarrow> s = t"
  by (auto simp: js_def inj_on_def list_eq_iff_nth_eq)

section \<open>The matcher computes the runs\<close>

lemma path_append: "path h p u q \<Longrightarrow> path h q v r \<Longrightarrow> path h p (u @ v) r"
  by (induction rule: path.induct) (auto intro: path.intros)

lemma path_nil_epsfree: "path h p [] q \<Longrightarrow> eps h p = [] \<Longrightarrow> q = p"
  by (erule path.cases) auto

lemma path_split_first:
  "path h q w x \<Longrightarrow> eps h x = [] \<Longrightarrow> \<exists>p. path h q [] p \<and> eps h p = [] \<and> path h p w x"
proof (induction rule: path.induct)
  case (path_refl p)
  then show ?case by (auto intro: path.intros)
next
  case (path_eps q p w r)
  then obtain p' where "path h q [] p'" "eps h p' = []" "path h p' w r" by auto
  with path_eps(1) show ?case by (auto intro: path.path_eps)
next
  case (path_sym p c q w r)
  then show ?case by (auto intro: path.intros)
qed

declare addNextState.simps [simp del]

lemma addNextState_sound:
  "x \<in> set (fst (addNextState h s nv)) \<Longrightarrow> x \<in> set (fst nv) \<or> (path h s [] x \<and> eps h x = [])"
  "x \<in> set (fst (addNextState_loop h sts nv)) \<Longrightarrow>
     x \<in> set (fst nv) \<or> (\<exists>st\<in>set sts. path h st [] x \<and> eps h x = [])"
proof (induction h s nv and h sts nv rule: addNextState_addNextState_loop.induct)
  case (1 h state nextStates visited)
  show ?case
  proof (cases "eps h state = []")
    case True
    with 1(2) show ?thesis by (auto simp: addNextState.simps intro: path.intros)
  next
    case False
    with 1(2) have "x \<in> set (fst (addNextState_loop h (eps h state) (nextStates, visited)))"
      by (simp add: addNextState.simps)
    from 1(1)[OF False this] show ?thesis by (auto intro: path.intros)
  qed
next
  case (2 h nextStates visited)
  then show ?case by simp
next
  case (3 h st sts nextStates visited)
  show ?case
  proof (cases "st \<in> set visited")
    case True
    with 3(4) have "x \<in> set (fst (addNextState_loop h sts (nextStates, visited)))" by simp
    from 3(3)[OF _ this] True show ?thesis by auto
  next
    case False
    with 3(4) have "x \<in> set (fst (addNextState_loop h sts (addNextState h st (nextStates, visited @ [st]))))"
      by simp
    from 3(2)[OF False this] 3(1)[OF False] show ?thesis by auto
  qed
qed

lemma done_mono:
  "done_st h nv x \<Longrightarrow> set (fst nv) \<subseteq> set (fst nv') \<Longrightarrow> set (snd nv) \<subseteq> set (snd nv') \<Longrightarrow> done_st h nv' x"
  by (auto simp: done_st_def)

lemma addNextState_complete:
  "(\<forall>x\<in>set (snd nv) - P. done_st h nv x) \<Longrightarrow>
     (\<forall>x\<in>set (snd (addNextState h s nv)) - P. done_st h (addNextState h s nv) x) \<and>
     done_st h (addNextState h s nv) s \<and>
     set (fst nv) \<subseteq> set (fst (addNextState h s nv)) \<and>
     set (snd nv) \<subseteq> set (snd (addNextState h s nv))"
  "(\<forall>x\<in>set (snd nv) - P. done_st h nv x) \<Longrightarrow>
     (\<forall>x\<in>set (snd (addNextState_loop h sts nv)) - P. done_st h (addNextState_loop h sts nv) x) \<and>
     set sts \<subseteq> set (snd (addNextState_loop h sts nv)) \<and>
     set (fst nv) \<subseteq> set (fst (addNextState_loop h sts nv)) \<and>
     set (snd nv) \<subseteq> set (snd (addNextState_loop h sts nv))"
proof (induction h s nv and h sts nv arbitrary: P and P rule: addNextState_addNextState_loop.induct)
  case (1 h state nextStates visited)
  show ?case
  proof (cases "eps h state = []")
    case True
    have "\<forall>x\<in>set visited - P. done_st h (nextStates @ [state], visited) x"
      using 1(2) by (auto simp: done_st_def)
    with True show ?thesis by (auto simp: done_st_def addNextState.simps)
  next
    case False
    from 1(1)[OF False 1(2)] False show ?thesis by (auto simp: done_st_def addNextState.simps)
  qed
next
  case (2 h nextStates visited)
  then show ?case by simp
next
  case (3 h st sts nextStates visited)
  show ?case
  proof (cases "st \<in> set visited")
    case True
    from 3(3)[OF _ 3(4)] True show ?thesis by auto
  next
    case False
    let ?r = "addNextState h st (nextStates, visited @ [st])"
    have pre: "\<forall>x\<in>set (snd (nextStates, visited @ [st])) - insert st P.
        done_st h (nextStates, visited @ [st]) x"
      using 3(4) by (auto simp: done_st_def)
    from 3(1)[OF False pre]
    have a: "\<forall>x\<in>set (snd ?r) - insert st P. done_st h ?r x"
      and b: "done_st h ?r st"
      and c: "set nextStates \<subseteq> set (fst ?r)"
      and d: "set (visited @ [st]) \<subseteq> set (snd ?r)" by auto
    from a b have "\<forall>x\<in>set (snd ?r) - P. done_st h ?r x" by auto
    from 3(2)[OF False this] c d False show ?thesis by auto
  qed
qed

lemma addNextState_set:
  "set (fst (addNextState h s (ns, []))) = set ns \<union> {x. path h s [] x \<and> eps h x = []}"
proof -
  let ?r = "addNextState h s (ns, [])"
  have inv: "\<forall>x\<in>set (snd ?r) - {}. done_st h ?r x" and ds: "done_st h ?r s"
    and mono: "set ns \<subseteq> set (fst ?r)"
    using addNextState_complete(1)[of "(ns, [])" "{}" h s] by auto
  have closed: "path h p w x \<Longrightarrow> w = [] \<Longrightarrow> p = s \<or> p \<in> set (snd ?r) \<Longrightarrow> x = s \<or> x \<in> set (snd ?r)"
    for p w x
  proof (induction rule: path.induct)
    case (path_eps q p w r)
    from path_eps(5) inv ds have "done_st h ?r p" by auto
    with path_eps(1) have "q \<in> set (snd ?r)" by (auto simp: done_st_def)
    with path_eps show ?case by simp
  qed auto
  have "x \<in> set (fst ?r)" if "path h s [] x" "eps h x = []" for x
  proof -
    from closed[OF that(1)] have "x = s \<or> x \<in> set (snd ?r)" by simp
    with inv ds have "done_st h ?r x" by auto
    with that(2) show ?thesis by (simp add: done_st_def)
  qed
  moreover have "x \<in> set ns \<or> (path h s [] x \<and> eps h x = [])" if "x \<in> set (fst ?r)" for x
    using addNextState_sound(1)[OF that] by simp
  ultimately show ?thesis using mono by auto
qed

lemma search_step_set:
  "set (search_step h c cur) =
     {x. \<exists>p\<in>set cur. \<exists>q. trn h p c = Some q \<and> path h q [] x \<and> eps h x = []}"
proof -
  let ?f = "\<lambda>state nextStates.
             case trn h state c of
               None \<Rightarrow> nextStates
             | Some nextState \<Rightarrow> fst (addNextState h nextState (nextStates, []))"
  have "set (fold ?f cur acc) =
     set acc \<union> {x. \<exists>p\<in>set cur. \<exists>q. trn h p c = Some q \<and> path h q [] x \<and> eps h x = []}" for acc
  proof (induction cur arbitrary: acc)
    case Nil
    then show ?case by simp
  next
    case (Cons a cur)
    show ?case
    proof (cases "trn h a c")
      case None
      then show ?thesis using Cons[of acc] by auto
    next
      case (Some q)
      then show ?thesis using Cons[of "fst (addNextState h q (acc, []))"]
        by (auto simp: addNextState_set)
    qed
  qed
  from this[of "[]"] show ?thesis by (simp add: search_step_def)
qed

lemma fold_search_step_set:
  "\<forall>p\<in>set cur. eps h p = [] \<Longrightarrow>
   set (fold (search_step h) w cur) = {x. \<exists>p\<in>set cur. path h p w x \<and> eps h x = []}"
proof (induction w arbitrary: cur)
  case Nil
  then show ?case by (auto intro: path.intros dest: path_nil_epsfree)
next
  case (Cons c w)
  let ?cur' = "search_step h c cur"
  have ef: "\<forall>p\<in>set ?cur'. eps h p = []" by (auto simp: search_step_set)
  have "{x. \<exists>p\<in>set ?cur'. path h p w x \<and> eps h x = []}
      = {x. \<exists>p\<in>set cur. path h p (c # w) x \<and> eps h x = []}" (is "?A = ?B")
  proof (intro set_eqI iffI)
    fix x assume "x \<in> ?A"
    then obtain p' p q where *: "p \<in> set cur" "trn h p c = Some q" "path h q [] p'"
      "path h p' w x" "eps h x = []"
      by (auto simp: search_step_set)
    from path_append[OF *(3) *(4)] have "path h q w x" by simp
    with * Cons.prems have "path h p (c # w) x" by (auto intro: path.path_sym)
    with * show "x \<in> ?B" by auto
  next
    fix x assume "x \<in> ?B"
    then obtain p where *: "p \<in> set cur" "path h p (c # w) x" "eps h x = []" by auto
    with Cons.prems have e: "eps h p = []" by auto
    from *(2) e obtain q where q: "trn h p c = Some q" "path h q w x"
      by (cases rule: path.cases) auto
    from path_split_first[OF q(2) *(3)] obtain p' where
      "path h q [] p'" "eps h p' = []" "path h p' w x" by auto
    with * q show "x \<in> ?A" by (auto simp: search_step_set)
  qed
  with Cons.IH[OF ef] show ?case by simp
qed

lemma search_path:
  "search h A word \<longleftrightarrow> (\<exists>x. path h (start A) (codePoints word) x \<and> eps h x = [] \<and> fin h x)"
proof -
  let ?w = "codePoints word"
  let ?cur = "fst (addNextState h (start A) ([], []))"
  have cur: "set ?cur = {x. path h (start A) [] x \<and> eps h x = []}"
    by (simp add: addNextState_set)
  then have ef: "\<forall>p\<in>set ?cur. eps h p = []" by auto
  have "set (fold (search_step h) ?w ?cur) = {x. path h (start A) ?w x \<and> eps h x = []}"
    (is "?L = ?R")
  proof (intro set_eqI iffI)
    fix x assume "x \<in> ?L"
    then obtain p where "path h (start A) [] p" "path h p ?w x" "eps h x = []"
      using cur by (auto simp: fold_search_step_set[OF ef])
    then show "x \<in> ?R" using path_append[of h "start A" "[]" p ?w x] by simp
  next
    fix x assume "x \<in> ?R"
    then have *: "path h (start A) ?w x" "eps h x = []" by auto
    from path_split_first[OF *] obtain p where
      "path h (start A) [] p" "eps h p = []" "path h p ?w x" by auto
    with * cur show "x \<in> ?L" by (auto simp: fold_search_step_set[OF ef])
  qed
  then show ?thesis by (auto simp: search_def Let_def list_ex_iff)
qed

section \<open>Reading the store after a write\<close>

lemma deref_append [simp]:
  "deref (h @ g) a = (if a < length h then deref h a else deref g (a - length h))"
  by (auto simp: deref_def nth_append)

lemma deref_Cons [simp]: "deref (x # g) a = (if a = 0 then x else deref g (a - 1))"
  by (auto simp: deref_def)

lemma deref_Nil [simp]:
  "deref [] a = \<lparr>isEnd = False, transition = Map.empty, epsilonTransitions = []\<rparr>"
  by (simp add: deref_def)

lemma deref_update [simp]:
  "deref (h[i := x]) a = (if a = i \<and> i < length h then x else deref h a)"
  by (auto simp: deref_def)

lemma deref_nth: "a < length h \<Longrightarrow> h ! a = deref h a"
  by (simp add: deref_def)

lemma deref_addEpsilonTransition [simp]:
  "deref (addEpsilonTransition f t h) a =
     (if a = f \<and> f < length h
      then (deref h f)\<lparr>epsilonTransitions := eps h f @ [t]\<rparr> else deref h a)"
  by (simp add: addEpsilonTransition_def deref_nth)

lemma deref_addTransition [simp]:
  "deref (addTransition f t k h) a =
     (if a = f \<and> f < length h
      then (deref h f)\<lparr>transition := (trn h f)(k \<mapsto> t)\<rparr> else deref h a)"
  by (simp add: addTransition_def deref_nth)

lemma deref_setIsEnd [simp]:
  "deref (setIsEnd f b h) a =
     (if a = f \<and> f < length h then (deref h f)\<lparr>isEnd := b\<rparr> else deref h a)"
  by (simp add: setIsEnd_def deref_nth)

lemma length_addEpsilonTransition [simp]: "length (addEpsilonTransition f t h) = length h"
  by (simp add: addEpsilonTransition_def)

lemma length_addTransition [simp]: "length (addTransition f t k h) = length h"
  by (simp add: addTransition_def)

lemma length_setIsEnd [simp]: "length (setIsEnd f b h) = length h"
  by (simp add: setIsEnd_def)

lemma deref_beyond: "length h \<le> a \<Longrightarrow> deref h a = \<lparr>isEnd = False, transition = Map.empty, epsilonTransitions = []\<rparr>"
  by (simp add: deref_def)

section \<open>Runs inside a fragment\<close>

lemma path_dead: "path h p w q \<Longrightarrow> eps h p = [] \<Longrightarrow> trn h p = Map.empty \<Longrightarrow> w = [] \<and> q = p"
  by (erule path.cases) auto

lemma path_stay:
  "path h p w q \<Longrightarrow> p \<in> S \<Longrightarrow> \<forall>a\<in>S. set (eps h a) \<subseteq> S \<and> ran (trn h a) \<subseteq> S \<Longrightarrow> q \<in> S"
proof (induction rule: path.induct)
  case (path_sym p c q w r)
  then have "q \<in> ran (trn h p)" by (auto simp: ran_def)
  with path_sym show ?case by blast
qed auto

lemma path_agree:
  "path h p w q \<Longrightarrow> p \<in> S \<Longrightarrow> \<forall>a\<in>S. set (eps h a) \<subseteq> S \<and> ran (trn h a) \<subseteq> S \<Longrightarrow>
   \<forall>a\<in>S. a \<noteq> e \<longrightarrow> deref h' a = deref h a \<Longrightarrow> eps h e = [] \<Longrightarrow> trn h e = Map.empty \<Longrightarrow>
   path h' p w q"
proof (induction rule: path.induct)
  case (path_refl p)
  show ?case by (rule path.path_refl)
next
  case (path_eps q p w r)
  then have ne: "p \<noteq> e" by auto
  with path_eps have "q \<in> set (eps h' p)" "q \<in> S" by auto
  with path_eps show ?case by (auto intro: path.path_eps)
next
  case (path_sym p c q w r)
  then have ne: "p \<noteq> e" by auto
  from path_sym have "q \<in> ran (trn h p)" by (auto simp: ran_def)
  with path_sym have qS: "q \<in> S" by blast
  from ne path_sym have "eps h' p = []" "trn h' p c = Some q" by auto
  with path_sym qS show ?case by (auto intro: path.path_sym)
qed

lemma frag_search: "frag h A S \<Longrightarrow> search h A w \<longleftrightarrow> codePoints w \<in> lang h A"
proof -
  assume f: "frag h A S"
  then have cl: "\<forall>a\<in>S. set (eps h a) \<subseteq> S \<and> ran (trn h a) \<subseteq> S" and st: "start A \<in> S"
    by (auto simp: frag_def)
  show ?thesis
  proof
    assume "search h A w"
    then obtain x where x: "path h (start A) (codePoints w) x" "fin h x" by (auto simp: search_path)
    from path_stay[OF x(1) st cl] have "x \<in> S" .
    with f x(2) have "x = end' A" by (auto simp: frag_def)
    with x show "codePoints w \<in> lang h A" by (simp add: lang_def)
  next
    assume "codePoints w \<in> lang h A"
    with f show "search h A w" by (auto simp: search_path lang_def frag_def)
  qed
qed

lemma frag_frame:
  assumes "frag h A S" "\<forall>a\<in>S. deref h' a = deref h a" "length h \<le> length h'"
  shows "frag h' A S" "lang h' A = lang h A"
proof -
  show f': "frag h' A S" using assms by (auto simp: frag_def)
  have "path h (start A) w (end' A) \<longleftrightarrow> path h' (start A) w (end' A)" for w
  proof
    assume "path h (start A) w (end' A)"
    then show "path h' (start A) w (end' A)"
      by (rule path_agree[where S = S and e = "end' A"]) (use assms in \<open>auto simp: frag_def\<close>)
  next
    assume "path h' (start A) w (end' A)"
    then show "path h (start A) w (end' A)"
      by (rule path_agree[where S = S and e = "end' A"]) (use assms f' in \<open>auto simp: frag_def\<close>)
  qed
  then show "lang h' A = lang h A" by (auto simp: lang_def)
qed

text \<open>
  The general situation of the four operators that wrap a fragment: its states but the end
  are untouched, the end gets epsilon edges to the new end m and perhaps back to the start.
\<close>

lemma path_wrap:
  assumes cl: "\<forall>a\<in>S. set (eps h a) \<subseteq> S \<and> ran (trn h a) \<subseteq> S"
    and ag: "\<forall>a\<in>S. a \<noteq> e \<longrightarrow> deref h' a = deref h a"
    and e: "trn h' e = Map.empty" "set (eps h' e) \<subseteq> {m, s}" "e \<in> S" "s \<in> S"
    and m: "m \<notin> S" "eps h' m = []" "trn h' m = Map.empty"
  shows "path h' p w r \<Longrightarrow> r = m \<Longrightarrow> p \<in> S \<Longrightarrow>
    \<exists>w1 ws. w = w1 @ concat ws \<and> path h p w1 e \<and> (\<forall>u\<in>set ws. path h s u e) \<and>
       (s \<notin> set (eps h' e) \<longrightarrow> ws = [])"
proof (induction rule: path.induct)
  case (path_refl p)
  with m show ?case by auto
next
  case (path_eps q p w r)
  show ?case
  proof (cases "p = e")
    case True
    with path_eps(1) e have "q = m \<or> (q = s \<and> s \<in> set (eps h' e))" by auto
    then show ?thesis
    proof
      assume "q = m"
      with path_eps(2) m have "w = []" by (auto dest: path_dead)
      with True show ?thesis
        by (intro exI[of _ "[]"]) (auto intro: path.path_refl)
    next
      assume q: "q = s \<and> s \<in> set (eps h' e)"
      with path_eps e obtain w1 ws where
        "w = w1 @ concat ws" "path h s w1 e" "\<forall>u\<in>set ws. path h s u e" by auto
      with True q show ?thesis
        by (intro exI[of _ "[]"] exI[of _ "w1 # ws"]) (auto intro: path.path_refl)
    qed
  next
    case False
    with path_eps ag have qe: "q \<in> set (eps h p)" by auto
    with path_eps cl have "q \<in> S" by auto
    with path_eps obtain w1 ws where
      "w = w1 @ concat ws" "path h q w1 e" "\<forall>u\<in>set ws. path h s u e"
      "s \<notin> set (eps h' e) \<longrightarrow> ws = []" by auto
    with qe show ?thesis by (auto intro: path.path_eps)
  qed
next
  case (path_sym p c q w r)
  with e have ne: "p \<noteq> e" by auto
  with path_sym ag have t: "eps h p = []" "trn h p c = Some q" by auto
  then have "q \<in> ran (trn h p)" by (auto simp: ran_def)
  with path_sym cl have "q \<in> S" by blast
  with path_sym obtain w1 ws where
    "w = w1 @ concat ws" "path h q w1 e" "\<forall>u\<in>set ws. path h s u e"
    "s \<notin> set (eps h' e) \<longrightarrow> ws = []" by auto
  with t show ?case
    by (intro exI[of _ "c # w1"] exI[of _ ws]) (auto intro: path.path_sym)
qed

section \<open>The operators on fragments\<close>

lemma wrap_frag:
  assumes f: "frag h A S"
    and ag: "\<forall>a\<in>S. a \<noteq> end' A \<longrightarrow> deref h' a = deref h a"
    and e: "eps h' (end' A) = Le" "trn h' (end' A) = Map.empty" "\<not> fin h' (end' A)"
      "set Le \<subseteq> {m, start A}" "length Le \<le> 2"
    and n: "eps h' n = Ln" "trn h' n = Map.empty" "\<not> fin h' n"
      "set Ln \<subseteq> {m, start A}" "length Ln \<le> 2"
    and m: "eps h' m = []" "trn h' m = Map.empty" "fin h' m"
    and fresh: "n \<noteq> m" "n \<notin> S" "m \<notin> S" "n < length h'" "m < length h'" "length h \<le> length h'"
  shows "frag h' \<lparr>start = n, end' = m\<rparr> (S \<union> {n, m})"
proof -
  have "set (eps h' a) \<subseteq> S \<union> {n, m} \<and> ran (trn h' a) \<subseteq> S \<union> {n, m} \<and>
        (fin h' a \<longleftrightarrow> a = m) \<and> length (eps h' a) \<le> 2 \<and> (eps h' a = [] \<or> trn h' a = Map.empty)"
    if a: "a \<in> S \<union> {n, m}" for a
  proof -
    consider "a = n" | "a = m" | "a = end' A" | "a \<in> S" "a \<noteq> end' A" using a by blast
    then show ?thesis
    proof cases
      case 1
      with n f fresh show ?thesis by (auto simp: frag_def)
    next
      case 2
      with m show ?thesis by auto
    next
      case 3
      with e f fresh show ?thesis by (auto simp: frag_def)
    next
      case 4
      with ag have "deref h' a = deref h a" by simp
      with 4 f fresh show ?thesis unfolding frag_def by auto
    qed
  qed
  with f fresh m show ?thesis unfolding frag_def by auto
qed

lemma wrap_inside:
  assumes f: "frag h A S"
    and ag: "\<forall>a\<in>S. a \<noteq> end' A \<longrightarrow> deref h' a = deref h a"
    and e: "trn h' (end' A) = Map.empty" "m \<in> set (eps h' (end' A))"
      "set (eps h' (end' A)) \<subseteq> {m, start A}"
    and m: "m \<notin> S" "eps h' m = []" "trn h' m = Map.empty"
  shows "path h' (start A) w m \<longleftrightarrow>
     (\<exists>w1 ws. w = w1 @ concat ws \<and> w1 \<in> lang h A \<and> set ws \<subseteq> lang h A \<and>
        (start A \<notin> set (eps h' (end' A)) \<longrightarrow> ws = []))"
proof
  from f have cl: "\<forall>a\<in>S. set (eps h a) \<subseteq> S \<and> ran (trn h a) \<subseteq> S"
    and mem: "end' A \<in> S" "start A \<in> S" by (auto simp: frag_def)
  assume "path h' (start A) w m"
  from path_wrap[OF cl ag e(1) e(3) mem m this refl mem(2)]
  show "\<exists>w1 ws. w = w1 @ concat ws \<and> w1 \<in> lang h A \<and> set ws \<subseteq> lang h A \<and>
        (start A \<notin> set (eps h' (end' A)) \<longrightarrow> ws = [])"
    by (auto simp: lang_def)
next
  from f have cl: "\<forall>a\<in>S. set (eps h a) \<subseteq> S \<and> ran (trn h a) \<subseteq> S"
    and mem: "end' A \<in> S" "start A \<in> S"
    and dead: "eps h (end' A) = []" "trn h (end' A) = Map.empty" by (auto simp: frag_def)
  have lift: "path h' (start A) u (end' A)" if "u \<in> lang h A" for u
    using that path_agree[OF _ mem(2) cl ag dead] by (auto simp: lang_def)
  have out: "path h' (end' A) [] m"
    using e(2) by (auto intro: path.intros)
  assume "\<exists>w1 ws. w = w1 @ concat ws \<and> w1 \<in> lang h A \<and> set ws \<subseteq> lang h A \<and>
        (start A \<notin> set (eps h' (end' A)) \<longrightarrow> ws = [])"
  then obtain w1 ws where w: "w = w1 @ concat ws" "w1 \<in> lang h A" "set ws \<subseteq> lang h A"
    "start A \<notin> set (eps h' (end' A)) \<longrightarrow> ws = []" by auto
  have "path h' (end' A) (concat ws) m" using w(3,4)
  proof (induction ws)
    case Nil
    show ?case using out by simp
  next
    case (Cons u ws)
    then have loop: "start A \<in> set (eps h' (end' A))" by auto
    have "path h' (end' A) (concat ws) m"
    proof (cases ws)
      case Nil
      then show ?thesis using out by simp
    next
      case (Cons a list)
      with Cons.IH Cons.prems loop show ?thesis by auto
    qed
    with path_append[OF lift[of u] this] Cons.prems
    have "path h' (start A) (u @ concat ws) m" by simp
    with loop show ?case by (auto intro: path.path_eps)
  qed
  with path_append[OF lift[OF w(2)] this] w(1) show "path h' (start A) w m" by simp
qed

lemma fresh_lt: "frag h A S \<Longrightarrow> a \<in> S \<Longrightarrow> a < length h"
  by (auto simp: frag_def)

lemma frag_end: "frag h A S \<Longrightarrow> end' A \<in> S \<and> start A \<in> S \<and> eps h (end' A) = [] \<and> trn h (end' A) = Map.empty"
  by (auto simp: frag_def)

lemma closure_correct:
  assumes f: "frag h A S" and r: "closure A h = (N, h')"
  shows "frag h' N (S \<union> {length h, length h + 1})"
    and "lang h' N = star (lang h A)"
    and "length h' = length h + 2"
    and "\<forall>a. a < length h \<longrightarrow> a \<noteq> end' A \<longrightarrow> deref h' a = deref h a"
    and "\<not> fin h' (end' A)"
    and "N = \<lparr>start = length h, end' = length h + 1\<rparr>"
proof -
  let ?n = "length h" and ?m = "length h + 1"
  from f have lt: "end' A < length h" "start A < length h"
    and dead: "eps h (end' A) = []" "trn h (end' A) = Map.empty"
    and mem: "end' A \<in> S" "start A \<in> S" and sub: "S \<subseteq> {..<length h}"
    by (auto simp: frag_def)
  from r have N: "N = \<lparr>start = ?n, end' = ?m\<rparr>"
    and h': "h' = setIsEnd (end' A) False (addEpsilonTransition (end' A) (start A)
       (addEpsilonTransition (end' A) ?m (addEpsilonTransition ?n (start A)
       (addEpsilonTransition ?n ?m
         ((h @ [\<lparr>isEnd = False, transition = Map.empty, epsilonTransitions = []\<rparr>])
            @ [\<lparr>isEnd = True, transition = Map.empty, epsilonTransitions = []\<rparr>])))))"
    by (auto simp: closure_def createState_def Let_def)
  show "N = \<lparr>start = length h, end' = length h + 1\<rparr>" by (rule N)
  show len: "length h' = length h + 2" by (simp add: h')
  show ag0: "\<forall>a. a < length h \<longrightarrow> a \<noteq> end' A \<longrightarrow> deref h' a = deref h a"
    by (simp add: h')
  have ag: "\<forall>a\<in>S. a \<noteq> end' A \<longrightarrow> deref h' a = deref h a" using ag0 sub by auto
  have e: "eps h' (end' A) = [?m, start A]" "trn h' (end' A) = Map.empty" "\<not> fin h' (end' A)"
    using lt dead by (simp_all add: h')
  have n: "eps h' ?n = [?m, start A]" "trn h' ?n = Map.empty" "\<not> fin h' ?n"
    using lt by (simp_all add: h')
  have m: "eps h' ?m = []" "trn h' ?m = Map.empty" "fin h' ?m"
    using lt by (simp_all add: h')
  show "\<not> fin h' (end' A)" by (rule e)
  have fresh: "?n \<notin> S" "?m \<notin> S" using sub by auto
  show "frag h' N (S \<union> {length h, length h + 1})"
    unfolding N
    by (rule wrap_frag[OF f ag e(1) e(2) e(3) _ _ n(1) n(2) n(3) _ _ m])
       (use fresh len in auto)
  have inside: "path h' (start A) w ?m \<longleftrightarrow>
     (\<exists>w1 ws. w = w1 @ concat ws \<and> w1 \<in> lang h A \<and> set ws \<subseteq> lang h A)" for w
    using wrap_inside[OF f ag e(2) _ _ fresh(2) m(1) m(2), of w] e(1) by simp
  have "path h' ?n w ?m \<longleftrightarrow> w \<in> star (lang h A)" for w
  proof
    assume "path h' ?n w ?m"
    then show "w \<in> star (lang h A)"
    proof (cases rule: path.cases)
      case (path_eps q)
      with n have "q = ?m \<or> q = start A" by auto
      then show ?thesis
      proof
        assume "q = ?m"
        with path_eps m have "w = []" by (auto dest: path_dead)
        then show ?thesis by (auto simp: star_def intro: exI[of _ "[]"])
      next
        assume "q = start A"
        with path_eps inside obtain w1 ws where
          "w = w1 @ concat ws" "w1 \<in> lang h A" "set ws \<subseteq> lang h A" by auto
        then show ?thesis by (auto simp: star_def intro!: exI[of _ "w1 # ws"])
      qed
    qed (use n in auto)
  next
    assume "w \<in> star (lang h A)"
    then obtain ws where ws: "w = concat ws" "set ws \<subseteq> lang h A" by (auto simp: star_def)
    show "path h' ?n w ?m"
    proof (cases ws)
      case Nil
      with ws n show ?thesis by (auto intro: path.intros)
    next
      case (Cons u us)
      with ws inside[of w] have "path h' (start A) w ?m" by auto
      with n show ?thesis by (auto intro: path.path_eps)
    qed
  qed
  then show "lang h' N = star (lang h A)" by (auto simp: lang_def N)
qed

lemma zeroOrOne_correct:
  assumes f: "frag h A S" and r: "zeroOrOne A h = (N, h')"
  shows "frag h' N (S \<union> {length h, length h + 1})"
    and "lang h' N = insert [] (lang h A)"
    and "length h' = length h + 2"
    and "\<forall>a. a < length h \<longrightarrow> a \<noteq> end' A \<longrightarrow> deref h' a = deref h a"
    and "\<not> fin h' (end' A)"
    and "N = \<lparr>start = length h, end' = length h + 1\<rparr>"
proof -
  let ?n = "length h" and ?m = "length h + 1"
  from f have lt: "end' A < length h" "start A < length h"
    and dead: "eps h (end' A) = []" "trn h (end' A) = Map.empty"
    and mem: "end' A \<in> S" "start A \<in> S" and sub: "S \<subseteq> {..<length h}"
    by (auto simp: frag_def)
  from r have N: "N = \<lparr>start = ?n, end' = ?m\<rparr>"
    and h': "h' = setIsEnd (end' A) False
       (addEpsilonTransition (end' A) ?m (addEpsilonTransition ?n (start A)
       (addEpsilonTransition ?n ?m
         ((h @ [\<lparr>isEnd = False, transition = Map.empty, epsilonTransitions = []\<rparr>])
            @ [\<lparr>isEnd = True, transition = Map.empty, epsilonTransitions = []\<rparr>]))))"
    by (auto simp: zeroOrOne_def createState_def Let_def)
  show "N = \<lparr>start = length h, end' = length h + 1\<rparr>" by (rule N)
  show len: "length h' = length h + 2" by (simp add: h')
  show ag0: "\<forall>a. a < length h \<longrightarrow> a \<noteq> end' A \<longrightarrow> deref h' a = deref h a"
    by (simp add: h')
  have ag: "\<forall>a\<in>S. a \<noteq> end' A \<longrightarrow> deref h' a = deref h a" using ag0 sub by auto
  have e: "eps h' (end' A) = [?m]" "trn h' (end' A) = Map.empty" "\<not> fin h' (end' A)"
    using lt dead by (simp_all add: h')
  have n: "eps h' ?n = [?m, start A]" "trn h' ?n = Map.empty" "\<not> fin h' ?n"
    using lt by (simp_all add: h')
  have m: "eps h' ?m = []" "trn h' ?m = Map.empty" "fin h' ?m"
    using lt by (simp_all add: h')
  show "\<not> fin h' (end' A)" by (rule e)
  have fresh: "?n \<notin> S" "?m \<notin> S" using sub by auto
  show "frag h' N (S \<union> {length h, length h + 1})"
    unfolding N
    by (rule wrap_frag[OF f ag e(1) e(2) e(3) _ _ n(1) n(2) n(3) _ _ m])
       (use fresh len in auto)
  have ns: "start A \<noteq> ?m" using lt by simp
  have inside: "path h' (start A) w ?m \<longleftrightarrow> w \<in> lang h A" for w
    using wrap_inside[OF f ag e(2) _ _ fresh(2) m(1) m(2), of w] e(1) ns by simp
  have "path h' ?n w ?m \<longleftrightarrow> w \<in> insert [] (lang h A)" for w
  proof
    assume "path h' ?n w ?m"
    then show "w \<in> insert [] (lang h A)"
    proof (cases rule: path.cases)
      case (path_eps q)
      with n have "q = ?m \<or> q = start A" by auto
      then show ?thesis
      proof
        assume "q = ?m"
        with path_eps m have "w = []" by (auto dest: path_dead)
        then show ?thesis by simp
      next
        assume "q = start A"
        with path_eps inside show ?thesis by auto
      qed
    qed (use n in auto)
  next
    assume "w \<in> insert [] (lang h A)"
    then show "path h' ?n w ?m"
    proof
      assume "w = []"
      with n show ?thesis by (auto intro: path.intros)
    next
      assume "w \<in> lang h A"
      with inside[of w] have "path h' (start A) w ?m" by auto
      with n show ?thesis by (auto intro: path.path_eps)
    qed
  qed
  then show "lang h' N = insert [] (lang h A)" by (auto simp: lang_def N)
qed

lemma conc_star_iff:
  "w \<in> conc L (star L) \<longleftrightarrow> (\<exists>w1 ws. w = w1 @ concat ws \<and> w1 \<in> L \<and> set ws \<subseteq> L)"
  unfolding conc_def star_def by blast

lemma oneOrMore_correct:
  assumes f: "frag h A S" and r: "oneOrMore A h = (N, h')"
  shows "frag h' N (S \<union> {length h, length h + 1})"
    and "lang h' N = conc (lang h A) (star (lang h A))"
    and "length h' = length h + 2"
    and "\<forall>a. a < length h \<longrightarrow> a \<noteq> end' A \<longrightarrow> deref h' a = deref h a"
    and "\<not> fin h' (end' A)"
    and "N = \<lparr>start = length h, end' = length h + 1\<rparr>"
proof -
  let ?n = "length h" and ?m = "length h + 1"
  from f have lt: "end' A < length h" "start A < length h"
    and dead: "eps h (end' A) = []" "trn h (end' A) = Map.empty"
    and mem: "end' A \<in> S" "start A \<in> S" and sub: "S \<subseteq> {..<length h}"
    by (auto simp: frag_def)
  from r have N: "N = \<lparr>start = ?n, end' = ?m\<rparr>"
    and h': "h' = setIsEnd (end' A) False (addEpsilonTransition (end' A) (start A)
       (addEpsilonTransition (end' A) ?m (addEpsilonTransition ?n (start A)
         ((h @ [\<lparr>isEnd = False, transition = Map.empty, epsilonTransitions = []\<rparr>])
            @ [\<lparr>isEnd = True, transition = Map.empty, epsilonTransitions = []\<rparr>]))))"
    by (auto simp: oneOrMore_def createState_def Let_def)
  show "N = \<lparr>start = length h, end' = length h + 1\<rparr>" by (rule N)
  show len: "length h' = length h + 2" by (simp add: h')
  show ag0: "\<forall>a. a < length h \<longrightarrow> a \<noteq> end' A \<longrightarrow> deref h' a = deref h a"
    by (simp add: h')
  have ag: "\<forall>a\<in>S. a \<noteq> end' A \<longrightarrow> deref h' a = deref h a" using ag0 sub by auto
  have e: "eps h' (end' A) = [?m, start A]" "trn h' (end' A) = Map.empty" "\<not> fin h' (end' A)"
    using lt dead by (simp_all add: h')
  have n: "eps h' ?n = [start A]" "trn h' ?n = Map.empty" "\<not> fin h' ?n"
    using lt by (simp_all add: h')
  have m: "eps h' ?m = []" "trn h' ?m = Map.empty" "fin h' ?m"
    using lt by (simp_all add: h')
  show "\<not> fin h' (end' A)" by (rule e)
  have fresh: "?n \<notin> S" "?m \<notin> S" using sub by auto
  show "frag h' N (S \<union> {length h, length h + 1})"
    unfolding N
    by (rule wrap_frag[OF f ag e(1) e(2) e(3) _ _ n(1) n(2) n(3) _ _ m])
       (use fresh len in auto)
  have inside: "path h' (start A) w ?m \<longleftrightarrow>
     (\<exists>w1 ws. w = w1 @ concat ws \<and> w1 \<in> lang h A \<and> set ws \<subseteq> lang h A)" for w
    using wrap_inside[OF f ag e(2) _ _ fresh(2) m(1) m(2), of w] e(1) by simp
  have ne: "?n \<noteq> ?m" by simp
  have "path h' ?n w ?m \<longleftrightarrow> path h' (start A) w ?m" for w
  proof
    assume "path h' ?n w ?m"
    then show "path h' (start A) w ?m"
      by (cases rule: path.cases) (use n ne in auto)
  next
    assume "path h' (start A) w ?m"
    with n show "path h' ?n w ?m" by (auto intro: path.path_eps)
  qed
  then have "w \<in> lang h' N \<longleftrightarrow> w \<in> conc (lang h A) (star (lang h A))" for w
    using inside[of w] by (simp add: lang_def N conc_star_iff)
  then show "lang h' N = conc (lang h A) (star (lang h A))" by blast
qed

lemma union_correct:
  assumes f: "frag h A S" and g: "frag h B T" and dj: "S \<inter> T = {}"
    and r: "union_nfa A B h = (N, h')"
  shows "frag h' N (S \<union> T \<union> {length h, length h + 1})"
    and "lang h' N = lang h A \<union> lang h B"
    and "length h' = length h + 2"
    and "\<forall>a. a < length h \<longrightarrow> a \<noteq> end' A \<longrightarrow> a \<noteq> end' B \<longrightarrow> deref h' a = deref h a"
    and "\<not> fin h' (end' A)" and "\<not> fin h' (end' B)"
    and "N = \<lparr>start = length h, end' = length h + 1\<rparr>"
proof -
  let ?n = "length h" and ?m = "length h + 1"
  from f have lt: "end' A < length h" "start A < length h"
    and dead: "eps h (end' A) = []" "trn h (end' A) = Map.empty"
    and mem: "end' A \<in> S" "start A \<in> S" and sub: "S \<subseteq> {..<length h}"
    by (auto simp: frag_def)
  from g have ltB: "end' B < length h" "start B < length h"
    and deadB: "eps h (end' B) = []" "trn h (end' B) = Map.empty"
    and memB: "end' B \<in> T" "start B \<in> T" and subB: "T \<subseteq> {..<length h}"
    by (auto simp: frag_def)
  from mem memB dj have ne: "end' A \<noteq> end' B" by auto
  from r have N: "N = \<lparr>start = ?n, end' = ?m\<rparr>"
    and h': "h' = setIsEnd (end' B) False (addEpsilonTransition (end' B) ?m
       (setIsEnd (end' A) False (addEpsilonTransition (end' A) ?m
         ((addEpsilonTransition ?n (start B) (addEpsilonTransition ?n (start A)
           (h @ [\<lparr>isEnd = False, transition = Map.empty, epsilonTransitions = []\<rparr>])))
            @ [\<lparr>isEnd = True, transition = Map.empty, epsilonTransitions = []\<rparr>]))))"
    by (auto simp: union_nfa_def createState_def Let_def)
  show "N = \<lparr>start = length h, end' = length h + 1\<rparr>" by (rule N)
  show len: "length h' = length h + 2" by (simp add: h')
  show ag0: "\<forall>a. a < length h \<longrightarrow> a \<noteq> end' A \<longrightarrow> a \<noteq> end' B \<longrightarrow> deref h' a = deref h a"
    by (simp add: h')
  have ag: "\<forall>a\<in>S. a \<noteq> end' A \<longrightarrow> deref h' a = deref h a"
    using ag0 sub dj memB by auto
  have agB: "\<forall>a\<in>T. a \<noteq> end' B \<longrightarrow> deref h' a = deref h a"
    using ag0 subB dj mem by auto
  have e: "eps h' (end' A) = [?m]" "trn h' (end' A) = Map.empty" "\<not> fin h' (end' A)"
    using lt dead ne by (simp_all add: h')
  have eB: "eps h' (end' B) = [?m]" "trn h' (end' B) = Map.empty" "\<not> fin h' (end' B)"
    using ltB deadB ne by (simp_all add: h')
  have n: "eps h' ?n = [start A, start B]" "trn h' ?n = Map.empty" "\<not> fin h' ?n"
    using lt ltB by (simp_all add: h')
  have m: "eps h' ?m = []" "trn h' ?m = Map.empty" "fin h' ?m"
    using lt ltB by (simp_all add: h')
  show "\<not> fin h' (end' A)" by (rule e)
  show "\<not> fin h' (end' B)" by (rule eB)
  have fresh: "?n \<notin> S" "?m \<notin> S" "?n \<notin> T" "?m \<notin> T" using sub subB by auto
  have "set (eps h' a) \<subseteq> S \<union> T \<union> {?n, ?m} \<and> ran (trn h' a) \<subseteq> S \<union> T \<union> {?n, ?m} \<and>
        (fin h' a \<longleftrightarrow> a = ?m) \<and> length (eps h' a) \<le> 2 \<and> (eps h' a = [] \<or> trn h' a = Map.empty)"
    if a: "a \<in> S \<union> T \<union> {?n, ?m}" for a
  proof -
    consider "a = ?n" | "a = ?m" | "a = end' A" | "a = end' B" | "a \<in> S" "a \<noteq> end' A"
      | "a \<in> T" "a \<noteq> end' B" using a by blast
    then show ?thesis
    proof cases
      case 1
      with n mem memB show ?thesis by auto
    next
      case 2
      with m show ?thesis by auto
    next
      case 3
      with e lt show ?thesis by auto
    next
      case 4
      with eB ltB show ?thesis by auto
    next
      case 5
      with ag have "deref h' a = deref h a" by simp
      with 5 f fresh show ?thesis unfolding frag_def by auto
    next
      case 6
      with agB have "deref h' a = deref h a" by simp
      with 6 g fresh show ?thesis unfolding frag_def by auto
    qed
  qed
  moreover have "S \<union> T \<union> {length h, length h + 1} \<subseteq> {..<length h'}"
    using sub subB len by auto
  ultimately show "frag h' N (S \<union> T \<union> {length h, length h + 1})"
    unfolding frag_def N using m by simp
  have nsA: "start A \<noteq> ?m" and nsB: "start B \<noteq> ?m" using lt ltB by simp_all
  have insideA: "path h' (start A) w ?m \<longleftrightarrow> w \<in> lang h A" for w
    using wrap_inside[OF f ag e(2) _ _ fresh(2) m(1) m(2), of w] e(1) nsA by simp
  have insideB: "path h' (start B) w ?m \<longleftrightarrow> w \<in> lang h B" for w
    using wrap_inside[OF g agB eB(2) _ _ fresh(4) m(1) m(2), of w] eB(1) nsB by simp
  have nm: "?n \<noteq> ?m" by simp
  have "path h' ?n w ?m \<longleftrightarrow> w \<in> lang h A \<union> lang h B" for w
  proof
    assume "path h' ?n w ?m"
    then show "w \<in> lang h A \<union> lang h B"
      by (cases rule: path.cases) (use n nm insideA insideB in auto)
  next
    assume "w \<in> lang h A \<union> lang h B"
    with insideA[of w] insideB[of w] have "path h' (start A) w ?m \<or> path h' (start B) w ?m"
      by auto
    with n show "path h' ?n w ?m" by (auto intro: path.path_eps)
  qed
  then show "lang h' N = lang h A \<union> lang h B" by (auto simp: lang_def N)
qed

lemma path_exit:
  assumes cl: "\<forall>a\<in>S. set (eps h a) \<subseteq> S \<and> ran (trn h a) \<subseteq> S"
    and ag: "\<forall>a\<in>S. a \<noteq> e \<longrightarrow> deref h' a = deref h a"
    and e: "trn h' e = Map.empty"
  shows "path h' p w r \<Longrightarrow> p \<in> S \<Longrightarrow> r \<notin> S \<Longrightarrow>
    \<exists>w1 w2. w = w1 @ w2 \<and> path h p w1 e \<and> path h' e w2 r"
proof (induction rule: path.induct)
  case (path_refl p)
  then show ?case by auto
next
  case (path_eps q p w r)
  show ?case
  proof (cases "p = e")
    case True
    from path.path_eps[OF path_eps(1) path_eps(2)] True show ?thesis
      by (intro exI[of _ "[]"] exI[of _ w]) (auto intro: path.path_refl)
  next
    case False
    with path_eps ag have qe: "q \<in> set (eps h p)" by auto
    with path_eps cl have "q \<in> S" by auto
    with path_eps obtain w1 w2 where "w = w1 @ w2" "path h q w1 e" "path h' e w2 r" by auto
    with qe show ?thesis by (auto intro: path.path_eps)
  qed
next
  case (path_sym p c q w r)
  with e have ne: "p \<noteq> e" by auto
  with path_sym ag have t: "eps h p = []" "trn h p c = Some q" by auto
  then have "q \<in> ran (trn h p)" by (auto simp: ran_def)
  with path_sym cl have "q \<in> S" by blast
  with path_sym obtain w1 w2 where "w = w1 @ w2" "path h q w1 e" "path h' e w2 r" by auto
  with t show ?case
    by (intro exI[of _ "c # w1"] exI[of _ w2]) (auto intro: path.path_sym)
qed

lemma concat_correct:
  assumes f: "frag h A S" and g: "frag h B T" and dj: "S \<inter> T = {}"
    and r: "concat_nfa A B h = (N, h')"
  shows "frag h' N (S \<union> T)"
    and "lang h' N = conc (lang h A) (lang h B)"
    and "length h' = length h"
    and "\<forall>a. a \<noteq> end' A \<longrightarrow> deref h' a = deref h a"
    and "\<not> fin h' (end' A)"
    and "N = \<lparr>start = start A, end' = end' B\<rparr>"
proof -
  from f have lt: "end' A < length h" "start A < length h"
    and dead: "eps h (end' A) = []" "trn h (end' A) = Map.empty"
    and mem: "end' A \<in> S" "start A \<in> S" and sub: "S \<subseteq> {..<length h}"
    and cl: "\<forall>a\<in>S. set (eps h a) \<subseteq> S \<and> ran (trn h a) \<subseteq> S"
    by (auto simp: frag_def)
  from g have ltB: "end' B < length h" "start B < length h"
    and deadB: "eps h (end' B) = []" "trn h (end' B) = Map.empty"
    and memB: "end' B \<in> T" "start B \<in> T" and subB: "T \<subseteq> {..<length h}"
    and clB: "\<forall>a\<in>T. set (eps h a) \<subseteq> T \<and> ran (trn h a) \<subseteq> T"
    by (auto simp: frag_def)
  from mem memB dj have ne: "end' A \<noteq> end' B" "end' A \<notin> T" "end' B \<notin> S" by auto
  from r have N: "N = \<lparr>start = start A, end' = end' B\<rparr>"
    and h': "h' = setIsEnd (end' A) False (addEpsilonTransition (end' A) (start B) h)"
    by (auto simp: concat_nfa_def Let_def)
  show "N = \<lparr>start = start A, end' = end' B\<rparr>" by (rule N)
  show len: "length h' = length h" by (simp add: h')
  show ag0: "\<forall>a. a \<noteq> end' A \<longrightarrow> deref h' a = deref h a"
    by (simp add: h')
  have ag: "\<forall>a\<in>S. a \<noteq> end' A \<longrightarrow> deref h' a = deref h a" using ag0 by auto
  have agB: "\<forall>a\<in>T. deref h' a = deref h a" using ag0 ne by metis
  have e: "eps h' (end' A) = [start B]" "trn h' (end' A) = Map.empty" "\<not> fin h' (end' A)"
    using lt dead by (simp_all add: h')
  show "\<not> fin h' (end' A)" by (rule e)
  have "set (eps h' a) \<subseteq> S \<union> T \<and> ran (trn h' a) \<subseteq> S \<union> T \<and>
        (fin h' a \<longleftrightarrow> a = end' B) \<and> length (eps h' a) \<le> 2 \<and> (eps h' a = [] \<or> trn h' a = Map.empty)"
    if a: "a \<in> S \<union> T" for a
  proof -
    consider "a = end' A" | "a \<in> S" "a \<noteq> end' A" | "a \<in> T" using a by blast
    then show ?thesis
    proof cases
      case 1
      with e memB ne show ?thesis by auto
    next
      case 2
      with ag have "deref h' a = deref h a" by simp
      with 2 f ne show ?thesis unfolding frag_def by auto
    next
      case 3
      with agB have "deref h' a = deref h a" by simp
      with 3 g show ?thesis unfolding frag_def by auto
    qed
  qed
  moreover have "eps h' (end' B) = []" "trn h' (end' B) = Map.empty"
    using agB memB deadB by auto
  ultimately show "frag h' N (S \<union> T)"
    unfolding frag_def N using mem memB sub subB len by auto
  have gB': "frag h' B T" and langB: "lang h' B = lang h B"
    using frag_frame[OF g agB] len by auto
  have "path h' (start A) w (end' B) \<longleftrightarrow> w \<in> conc (lang h A) (lang h B)" for w
  proof
    assume "path h' (start A) w (end' B)"
    from path_exit[OF cl ag e(2) this mem(2) ne(3)] obtain w1 w2 where
      w: "w = w1 @ w2" "path h (start A) w1 (end' A)" "path h' (end' A) w2 (end' B)" by auto
    from w(3) have "path h' (start B) w2 (end' B)"
      by (cases rule: path.cases) (use e ne in auto)
    with langB have "w2 \<in> lang h B" by (auto simp: lang_def)
    with w show "w \<in> conc (lang h A) (lang h B)" by (auto simp: conc_def lang_def)
  next
    assume "w \<in> conc (lang h A) (lang h B)"
    then obtain u v where w: "w = u @ v" "u \<in> lang h A" "v \<in> lang h B"
      by (auto simp: conc_def)
    from w(2) have 1: "path h' (start A) u (end' A)"
      using path_agree[OF _ mem(2) cl ag dead] by (auto simp: lang_def)
    from w(3) langB have "path h' (start B) v (end' B)" by (auto simp: lang_def)
    with e have "path h' (end' A) v (end' B)" by (auto intro: path.path_eps)
    from path_append[OF 1 this] w(1) show "path h' (start A) w (end' B)" by simp
  qed
  then show "lang h' N = conc (lang h A) (lang h B)" by (auto simp: lang_def N)
qed

lemma fromSymbol_correct:
  assumes r: "fromSymbol (Some k) h = (N, h')"
  shows "frag h' N {length h, length h + 1}"
    and "lang h' N = {[k]}"
    and "length h' = length h + 2"
    and "\<forall>a. a < length h \<longrightarrow> deref h' a = deref h a"
    and "N = \<lparr>start = length h, end' = length h + 1\<rparr>"
proof -
  let ?n = "length h" and ?m = "length h + 1"
  from r have N: "N = \<lparr>start = ?n, end' = ?m\<rparr>"
    and h': "h' = addTransition ?n ?m k
         ((h @ [\<lparr>isEnd = False, transition = Map.empty, epsilonTransitions = []\<rparr>])
            @ [\<lparr>isEnd = True, transition = Map.empty, epsilonTransitions = []\<rparr>])"
    by (auto simp: fromSymbol_def createState_def Let_def propertyKey_def)
  show "N = \<lparr>start = length h, end' = length h + 1\<rparr>" by (rule N)
  show len: "length h' = length h + 2" by (simp add: h')
  show "\<forall>a. a < length h \<longrightarrow> deref h' a = deref h a" by (simp add: h')
  have n: "eps h' ?n = []" "trn h' ?n = [k \<mapsto> ?m]" "\<not> fin h' ?n"
    by (simp_all add: h')
  have m: "eps h' ?m = []" "trn h' ?m = Map.empty" "fin h' ?m"
    by (simp_all add: h')
  show "frag h' N {length h, length h + 1}"
    unfolding frag_def N using n m len by auto
  have "path h' ?n w ?m \<longleftrightarrow> w = [k]" for w
  proof
    assume "path h' ?n w ?m"
    then show "w = [k]"
    proof (cases rule: path.cases)
      case (path_sym c' q w')
      with n have "c' = k" "q = ?m" by (auto split: if_splits)
      with path_sym m show ?thesis by (auto dest: path_dead)
    qed (use n in auto)
  next
    assume "w = [k]"
    with n show "path h' ?n w ?m" by (auto intro!: path.path_sym path.path_refl)
  qed
  then show "lang h' N = {[k]}" by (auto simp: lang_def N)
qed

lemma fromEpsilon_correct:
  assumes r: "fromEpsilon h = (N, h')"
  shows "frag h' N {length h, length h + 1}"
    and "lang h' N = {[]}"
    and "length h' = length h + 2"
    and "\<forall>a. a < length h \<longrightarrow> deref h' a = deref h a"
    and "N = \<lparr>start = length h, end' = length h + 1\<rparr>"
proof -
  let ?n = "length h" and ?m = "length h + 1"
  from r have N: "N = \<lparr>start = ?n, end' = ?m\<rparr>"
    and h': "h' = addEpsilonTransition ?n ?m
         ((h @ [\<lparr>isEnd = False, transition = Map.empty, epsilonTransitions = []\<rparr>])
            @ [\<lparr>isEnd = True, transition = Map.empty, epsilonTransitions = []\<rparr>])"
    by (auto simp: fromEpsilon_def createState_def Let_def)
  show "N = \<lparr>start = length h, end' = length h + 1\<rparr>" by (rule N)
  show len: "length h' = length h + 2" by (simp add: h')
  show "\<forall>a. a < length h \<longrightarrow> deref h' a = deref h a" by (simp add: h')
  have n: "eps h' ?n = [?m]" "trn h' ?n = Map.empty" "\<not> fin h' ?n"
    by (simp_all add: h')
  have m: "eps h' ?m = []" "trn h' ?m = Map.empty" "fin h' ?m"
    by (simp_all add: h')
  show "frag h' N {length h, length h + 1}"
    unfolding frag_def N using n m len by auto
  have "path h' ?n w ?m \<longleftrightarrow> w = []" for w
  proof
    assume "path h' ?n w ?m"
    then show "w = []"
    proof (cases rule: path.cases)
      case (path_eps q)
      with n have "q = ?m" by auto
      with path_eps m show ?thesis by (auto dest: path_dead)
    qed (use n in auto)
  next
    assume "w = []"
    with n show "path h' ?n w ?m" by (auto intro: path.intros)
  qed
  then show "lang h' N = {[]}" by (auto simp: lang_def N)
qed

lemma peek_at [simp]: "peek (at pre rest) = (case rest of [] \<Rightarrow> None | c # cs \<Rightarrow> Some c)"
  by (auto simp: peek_def at_def nth_append split: list.splits)

lemma hasMoreChars_at [simp]: "hasMoreChars (at pre rest) = (rest \<noteq> [])"
  by (auto simp: hasMoreChars_def at_def)

lemma match_at [simp]: "match (Some c) (at pre (c # rest)) = Inr ((), at (pre @ [c]) rest)"
  by (simp add: match_def at_def peek_def nth_append)

lemma next_ch_at [simp]: "next_ch (at pre (c # rest)) = Inr (Some c, at (pre @ [c]) rest)"
  by (simp add: next_ch_def match_def at_def peek_def nth_append)

section \<open>The parser on the reference syntax\<close>

lemma pat_starts:
  "wf_expr e \<Longrightarrow> \<exists>c cs. pat_expr e = c # cs \<and> starter c"
  "wf_term t \<Longrightarrow> \<exists>c cs. pat_term t = c # cs \<and> starter c"
  "wf_factor f \<Longrightarrow> \<exists>c cs. pat_factor f = c # cs \<and> starter c"
  "wf_atom a \<Longrightarrow> \<exists>c cs. pat_atom a = c # cs \<and> starter c"
proof (induction e and t and f and a)
  case (AChar x)
  then show ?case by (cases x) (auto simp: starter_def special_def)
qed (auto simp: starter_def)

lemma parse_char:
  "wf_char c \<Longrightarrow> char_r (at pre (pat_char c @ post)) = Inr (tree_char c, at (pre @ pat_char c) post)"
  by (cases c) (auto simp: char_r_def isMetaChar_def special_def str_def)

lemma parse_syntax:
  "wf_expr e \<Longrightarrow> post = [] \<or> hd post = cu CHR '')'' \<Longrightarrow>
     expr (at pre (pat_expr e @ post)) = Inr (tree_expr e, at (pre @ pat_expr e) post)"
  "wf_term t \<Longrightarrow> post = [] \<or> hd post = cu CHR '')'' \<or> hd post = cu CHR ''|'' \<Longrightarrow>
     term_r (at pre (pat_term t @ post)) = Inr (tree_term t, at (pre @ pat_term t) post)"
  "wf_factor f \<Longrightarrow> post = [] \<or> \<not> isMetaChar (Some (hd post)) \<Longrightarrow>
     factor (at pre (pat_factor f @ post)) = Inr (tree_factor f, at (pre @ pat_factor f) post)"
  "wf_atom a \<Longrightarrow>
     atom (at pre (pat_atom a @ post)) = Inr (tree_atom a, at (pre @ pat_atom a) post)"
proof (induction e and t and f and a arbitrary: pre post and pre post and pre post and pre post)
  case (ETerm t)
  then have "term_r (at pre (pat_term t @ post)) = Inr (tree_term t, at (pre @ pat_term t) post)"
    by auto
  with ETerm.prems show ?case
    by (subst expr.simps) (auto split: list.splits)
next
  case (EAlt t e)
  then have 1: "term_r (at pre (pat_term t @ (cu CHR ''|'') # pat_expr e @ post))
      = Inr (tree_term t, at (pre @ pat_term t) ((cu CHR ''|'') # pat_expr e @ post))"
    by auto
  from EAlt have 2: "expr (at ((pre @ pat_term t) @ [cu CHR ''|'']) (pat_expr e @ post))
      = Inr (tree_expr e, at (((pre @ pat_term t) @ [cu CHR ''|'']) @ pat_expr e) post)"
    by auto
  from 1 2 show ?case
    by (subst expr.simps) simp
next
  case (TFactor f)
  then have "factor (at pre (pat_factor f @ post)) = Inr (tree_factor f, at (pre @ pat_factor f) post)"
    by (auto simp: isMetaChar_def)
  with TFactor.prems show ?case
    by (subst term_r.simps) (auto split: list.splits)
next
  case (TSeq f t)
  from TSeq.prems pat_starts(2)[of t] obtain c cs where c: "pat_term t = c # cs" "starter c"
    by auto
  then have "\<not> isMetaChar (Some (hd (pat_term t @ post)))"
    by (auto simp: isMetaChar_def starter_def)
  with TSeq have 1: "factor (at pre (pat_factor f @ pat_term t @ post))
      = Inr (tree_factor f, at (pre @ pat_factor f) (pat_term t @ post))"
    by auto
  from TSeq have 2: "term_r (at (pre @ pat_factor f) (pat_term t @ post))
      = Inr (tree_term t, at ((pre @ pat_factor f) @ pat_term t) post)"
    by auto
  from 1 2 c show ?case
    by (subst term_r.simps) (auto simp: starter_def)
next
  case (FAtom a)
  then have "atom (at pre (pat_atom a @ post)) = Inr (tree_atom a, at (pre @ pat_atom a) post)"
    by auto
  with FAtom.prems show ?case
    by (subst factor.simps) (auto split: list.splits)
next
  case (FMeta a m)
  then have "atom (at pre (pat_atom a @ meta_char m # post))
      = Inr (tree_atom a, at (pre @ pat_atom a) (meta_char m # post))"
    by auto
  then show ?case
    by (subst factor.simps) (cases m; simp add: isMetaChar_def str_def)
next
  case (AChar c)
  then have wf: "wf_char c" by simp
  have p: "peek (at pre (pat_char c @ post)) \<noteq> Some (cu CHR ''('')"
    using wf by (cases c) (auto simp: special_def)
  show ?case
    using p parse_char[OF wf, of pre post]
    by (subst atom.simps) (simp del: peek_at)
next
  case (AGroup e)
  then have "expr (at (pre @ [cu CHR ''('']) (pat_expr e @ (cu CHR '')'') # post))
      = Inr (tree_expr e, at ((pre @ [cu CHR ''('']) @ pat_expr e) ((cu CHR '')'') # post))"
    by auto
  then show ?case
    by (subst atom.simps) simp
qed

lemma toParseTree_syntax:
  "wf_expr e \<Longrightarrow> toParseTree (pat_expr e) g
     = Inr (tree_expr e, \<lparr>pattern = pat_expr e, pos = length (pat_expr e)\<rparr>)"
  using parse_syntax(1)[of e "[]" "[]"]
  by (cases g) (simp add: toParseTree_def at_def)

section \<open>Composition of built fragments\<close>

lemma fromSymbol_frag:
  assumes r: "fromSymbol symbol h = (N, h')"
  shows "frag h' N {length h, length h + 1}"
    and "length h' = length h + 2"
    and "\<forall>a. a < length h \<longrightarrow> deref h' a = deref h a"
    and "N = \<lparr>start = length h, end' = length h + 1\<rparr>"
proof -
  let ?n = "length h" and ?m = "length h + 1"
  from r have N: "N = \<lparr>start = ?n, end' = ?m\<rparr>"
    and h': "h' = addTransition ?n ?m (propertyKey symbol)
         ((h @ [\<lparr>isEnd = False, transition = Map.empty, epsilonTransitions = []\<rparr>])
            @ [\<lparr>isEnd = True, transition = Map.empty, epsilonTransitions = []\<rparr>])"
    by (auto simp: fromSymbol_def createState_def Let_def)
  show "N = \<lparr>start = length h, end' = length h + 1\<rparr>" by (rule N)
  show len: "length h' = length h + 2" by (simp add: h')
  show "\<forall>a. a < length h \<longrightarrow> deref h' a = deref h a" by (simp add: h')
  have n: "eps h' ?n = []" "trn h' ?n = [propertyKey symbol \<mapsto> ?m]" "\<not> fin h' ?n"
    by (simp_all add: h')
  have m: "eps h' ?m = []" "trn h' ?m = Map.empty" "fin h' ?m"
    by (simp_all add: h')
  show "frag h' N {length h, length h + 1}"
    unfolding frag_def N using n m len by auto
qed

lemma built_frame:
  assumes "built h h1 N" "\<forall>a<length h1. deref h2 a = deref h1 a" "length h1 \<le> length h2"
  shows "frag h2 N {length h..<length h1}" "lang h2 N = lang h1 N"
  using frag_frame[of h1 N "{length h..<length h1}" h2] assms by (auto simp: built_def)

lemma built_fromSymbol: "fromSymbol symbol h = (N, h') \<Longrightarrow> built h h' N"
proof -
  assume r: "fromSymbol symbol h = (N, h')"
  have "{length h..<length h + 2} = {length h, length h + 1}" by auto
  with fromSymbol_frag[OF r] show ?thesis by (auto simp: built_def)
qed

lemma built_fromEpsilon: "fromEpsilon h = (N, h') \<Longrightarrow> built h h' N"
proof -
  assume r: "fromEpsilon h = (N, h')"
  have "{length h..<length h + 2} = {length h, length h + 1}" by auto
  with fromEpsilon_correct[OF r] show ?thesis by (auto simp: built_def)
qed

lemma built_union:
  assumes a: "built h h1 A" and b: "built h1 h2 B" and r: "union_nfa A B h2 = (N, h3)"
  shows "built h h3 N" "lang h3 N = lang h1 A \<union> lang h2 B"
proof -
  from b have pre: "\<forall>a<length h1. deref h2 a = deref h1 a" "length h1 < length h2"
    and fb: "frag h2 B {length h1..<length h2}" by (auto simp: built_def)
  from a have lt: "length h < length h1" and pre0: "\<forall>a<length h. deref h1 a = deref h a"
    by (auto simp: built_def)
  from built_frame[OF a pre(1)] pre(2)
  have fa: "frag h2 A {length h..<length h1}" and la: "lang h2 A = lang h1 A" by auto
  have dj: "{length h..<length h1} \<inter> {length h1..<length h2} = {}" by auto
  note u = union_correct[OF fa fb dj r]
  have "{length h..<length h1} \<union> {length h1..<length h2} \<union> {length h2, length h2 + 1}
      = {length h..<length h3}" using lt pre(2) u(3) by auto
  with u(1) have 1: "frag h3 N {length h..<length h3}" by simp
  from fa fb have "length h \<le> end' A" "length h \<le> end' B" by (auto simp: frag_def)
  with u(4) pre pre0 lt have "\<forall>a<length h. deref h3 a = deref h a" by auto
  with 1 lt pre(2) u(3) show "built h h3 N" by (auto simp: built_def)
  from u(2) la show "lang h3 N = lang h1 A \<union> lang h2 B" by simp
qed

lemma built_concat:
  assumes a: "built h h1 A" and b: "built h1 h2 B" and r: "concat_nfa A B h2 = (N, h3)"
  shows "built h h3 N" "lang h3 N = conc (lang h1 A) (lang h2 B)"
proof -
  from b have pre: "\<forall>a<length h1. deref h2 a = deref h1 a" "length h1 < length h2"
    and fb: "frag h2 B {length h1..<length h2}" by (auto simp: built_def)
  from a have lt: "length h < length h1" and pre0: "\<forall>a<length h. deref h1 a = deref h a"
    by (auto simp: built_def)
  from built_frame[OF a pre(1)] pre(2)
  have fa: "frag h2 A {length h..<length h1}" and la: "lang h2 A = lang h1 A" by auto
  have dj: "{length h..<length h1} \<inter> {length h1..<length h2} = {}" by auto
  note u = concat_correct[OF fa fb dj r]
  have "{length h..<length h1} \<union> {length h1..<length h2} = {length h..<length h3}"
    using lt pre(2) u(3) by auto
  with u(1) have 1: "frag h3 N {length h..<length h3}" by simp
  from fa have "length h \<le> end' A" by (auto simp: frag_def)
  with u(4) pre pre0 lt have "\<forall>a<length h. deref h3 a = deref h a" by auto
  with 1 lt pre(2) u(3) show "built h h3 N" by (auto simp: built_def)
  from u(2) la show "lang h3 N = conc (lang h1 A) (lang h2 B)" by simp
qed

lemma built_wrap:
  assumes a: "built h h1 A"
    and u: "frag h2 N ({length h..<length h1} \<union> {length h1, length h1 + 1})"
      "length h2 = length h1 + 2"
      "\<forall>a. a < length h1 \<longrightarrow> a \<noteq> end' A \<longrightarrow> deref h2 a = deref h1 a"
  shows "built h h2 N"
proof -
  from a have lt: "length h < length h1" and pre0: "\<forall>a<length h. deref h1 a = deref h a"
    and fa: "frag h1 A {length h..<length h1}" by (auto simp: built_def)
  have "{length h..<length h1} \<union> {length h1, length h1 + 1} = {length h..<length h2}"
    using lt u(2) by auto
  with u(1) have 1: "frag h2 N {length h..<length h2}" by simp
  from fa have "length h \<le> end' A" by (auto simp: frag_def)
  with u(3) pre0 lt have "\<forall>a<length h. deref h2 a = deref h a" by auto
  with 1 lt u(2) show ?thesis by (auto simp: built_def)
qed

lemma built_closure:
  assumes a: "built h h1 A" and r: "closure A h1 = (N, h2)"
  shows "built h h2 N" "lang h2 N = star (lang h1 A)"
proof -
  from a have fa: "frag h1 A {length h..<length h1}" by (auto simp: built_def)
  note u = closure_correct[OF fa r]
  show "built h h2 N" by (rule built_wrap[OF a u(1) u(3) u(4)])
  show "lang h2 N = star (lang h1 A)" by (rule u(2))
qed

lemma built_zeroOrOne:
  assumes a: "built h h1 A" and r: "zeroOrOne A h1 = (N, h2)"
  shows "built h h2 N" "lang h2 N = insert [] (lang h1 A)"
proof -
  from a have fa: "frag h1 A {length h..<length h1}" by (auto simp: built_def)
  note u = zeroOrOne_correct[OF fa r]
  show "built h h2 N" by (rule built_wrap[OF a u(1) u(3) u(4)])
  show "lang h2 N = insert [] (lang h1 A)" by (rule u(2))
qed

lemma built_oneOrMore:
  assumes a: "built h h1 A" and r: "oneOrMore A h1 = (N, h2)"
  shows "built h h2 N" "lang h2 N = conc (lang h1 A) (star (lang h1 A))"
proof -
  from a have fa: "frag h1 A {length h..<length h1}" by (auto simp: built_def)
  note u = oneOrMore_correct[OF fa r]
  show "built h h2 N" by (rule built_wrap[OF a u(1) u(3) u(4)])
  show "lang h2 N = conc (lang h1 A) (star (lang h1 A))" by (rule u(2))
qed

section \<open>Code units and code points\<close>

lemma symbols_simps [simp]:
  "symbols [] = []" "symbols (c # w) = [c] # symbols w" "symbols (u @ v) = symbols u @ symbols v"
  by (simp_all add: symbols_def)

lemma concat_symbols [simp]: "concat (symbols w) = w"
  by (induction w) simp_all

lemma symbols_eq_iff [simp]: "symbols u = symbols v \<longleftrightarrow> u = v"
  by (auto simp: symbols_def inj_on_def list_eq_iff_nth_eq)

lemma symbols_concat: "symbols (concat ws) = concat (map symbols ws)"
  by (induction ws) simp_all

lemma symbols_conc [simp]: "symbols ` conc L1 L2 = conc (symbols ` L1) (symbols ` L2)"
proof (intro set_eqI iffI)
  fix x assume "x \<in> symbols ` conc L1 L2"
  then obtain u v where "x = symbols (u @ v)" "u \<in> L1" "v \<in> L2" by (auto simp: conc_def)
  then have "x = symbols u @ symbols v \<and> symbols u \<in> symbols ` L1 \<and> symbols v \<in> symbols ` L2"
    by simp
  then show "x \<in> conc (symbols ` L1) (symbols ` L2)" unfolding conc_def by blast
next
  fix x assume "x \<in> conc (symbols ` L1) (symbols ` L2)"
  then obtain u v where "x = symbols u @ symbols v" "u \<in> L1" "v \<in> L2"
    by (auto simp: conc_def)
  then have "x = symbols (u @ v) \<and> u @ v \<in> conc L1 L2" by (auto simp: conc_def)
  then show "x \<in> symbols ` conc L1 L2" by blast
qed

lemma symbols_star [simp]: "symbols ` star L = star (symbols ` L)"
proof (intro set_eqI iffI)
  fix x assume "x \<in> symbols ` star L"
  then obtain ws where ws: "x = symbols (concat ws)" "set ws \<subseteq> L" by (auto simp: star_def)
  then have "x = concat (map symbols ws) \<and> set (map symbols ws) \<subseteq> symbols ` L"
    by (auto simp: symbols_concat)
  then show "x \<in> star (symbols ` L)" unfolding star_def by blast
next
  fix x assume "x \<in> star (symbols ` L)"
  then obtain ks where ks: "x = concat ks" "set ks \<subseteq> symbols ` L" by (auto simp: star_def)
  have "\<exists>ws. ks = map symbols ws \<and> set ws \<subseteq> L" using ks(2)
  proof (induction ks)
    case Nil
    show ?case by simp
  next
    case (Cons k ks)
    then obtain ws u where "ks = map symbols ws" "set ws \<subseteq> L" "k = symbols u" "u \<in> L" by auto
    then show ?case by (intro exI[of _ "u # ws"]) simp
  qed
  then obtain ws where ws: "ks = map symbols ws" "set ws \<subseteq> L" by auto
  with ks have "x = symbols (concat ws) \<and> concat ws \<in> star L"
    by (auto simp: symbols_concat star_def)
  then show "x \<in> symbols ` star L" by blast
qed

lemma concat_codePoints [simp]: "concat (codePoints w) = w"
  by (induction w rule: codePoints.induct) simp_all

lemma codePoints_symbols: "codePoints w = symbols u \<Longrightarrow> u = w"
proof -
  assume "codePoints w = symbols u"
  then have "concat (codePoints w) = concat (symbols u)" by simp
  then show "u = w" by simp
qed

lemma codePoints_in_symbols:
  "codePoints w \<in> symbols ` L \<longleftrightarrow> w \<in> L \<and> codePoints w = symbols w"
proof
  assume "codePoints w \<in> symbols ` L"
  then obtain u where u: "u \<in> L" "codePoints w = symbols u" by auto
  from codePoints_symbols[OF u(2)] u show "w \<in> L \<and> codePoints w = symbols w" by simp
next
  assume "w \<in> L \<and> codePoints w = symbols w"
  then show "codePoints w \<in> symbols ` L" by simp
qed

lemma codePoints_Nil_iff [simp]: "codePoints w = [] \<longleftrightarrow> w = []"
  by (cases w rule: codePoints.cases) auto

lemma hd_codePoints: "hd (hd (codePoints (b # r))) = b" "hd (codePoints (b # r)) \<noteq> []"
  by (cases r; simp)+

lemma canon_codePoints: "canon (codePoints w)"
proof (induction w rule: codePoints.induct)
  case 1
  show ?case by simp
next
  case (2 a)
  show ?case by (simp add: okkey_def)
next
  case (3 a b r)
  show ?case
  proof (cases "highSurrogate a \<and> lowSurrogate b")
    case True
    with 3 show ?thesis by (cases "codePoints r") (auto simp: okkey_def glue_def)
  next
    case False
    obtain k ks where c: "codePoints (b # r) = k # ks" by (cases "codePoints (b # r)") auto
    with hd_codePoints[of b r] have "k \<noteq> []" "hd k = b" by auto
    with False 3 c show ?thesis by (auto simp: okkey_def glue_def)
  qed
qed

lemma canon_tl: "canon (k # ks) \<Longrightarrow> okkey k \<and> canon ks"
  by (cases ks) auto

lemma codePoints_canon: "canon ks \<Longrightarrow> codePoints (concat ks) = ks"
proof (induction ks rule: canon.induct)
  case 1
  show ?case by simp
next
  case (2 k)
  then show ?case by (auto simp: okkey_def)
next
  case (3 k k' r)
  then have ok: "okkey k" and ng: "\<not> glue k k'" and c: "canon (k' # r)" by auto
  from 3 c have ih: "codePoints (concat (k' # r)) = k' # r" by simp
  from c have "okkey k'" by (auto dest: canon_tl)
  then obtain b t where k': "k' = b # t" by (auto simp: okkey_def)
  from ok consider a where "k = [a]" | a a' where "k = [a, a']" "highSurrogate a" "lowSurrogate a'"
    by (auto simp: okkey_def)
  then show ?case
  proof cases
    case 1
    with ng k' have "\<not> (highSurrogate a \<and> lowSurrogate b)" by (auto simp: glue_def)
    with 1 k' ih show ?thesis by auto
  next
    case 2
    with ih show ?thesis by simp
  qed
qed

lemma canon_append: "canon (xs @ ys) \<Longrightarrow> canon xs \<and> canon ys"
proof (induction xs rule: canon.induct)
  case 1
  then show ?case by simp
next
  case (2 k)
  then show ?case by (cases ys) auto
next
  case (3 k k' r)
  then show ?case by auto
qed

lemma codePoints_segments:
  "codePoints w = concat kss \<Longrightarrow> ks \<in> set kss \<Longrightarrow> codePoints (concat ks) = ks"
proof -
  assume a: "codePoints w = concat kss" and m: "ks \<in> set kss"
  from canon_codePoints[of w] a have c: "canon (concat kss)" by simp
  from m obtain xs ys where "kss = xs @ ks # ys" by (auto simp: in_set_conv_decomp)
  with c have "canon (concat xs @ ks @ concat ys)" by simp
  then have "canon ks" by (auto dest!: canon_append)
  then show ?thesis by (rule codePoints_canon)
qed

lemma codePoints_plain:
  "\<not> highSurrogate c \<Longrightarrow> \<not> lowSurrogate c \<Longrightarrow>
     codePoints (u @ c # v) = codePoints u @ [c] # codePoints v"
proof (induction u rule: codePoints.induct)
  case 1
  then show ?case by (cases v) auto
next
  case (2 a)
  then show ?case by (cases v) auto
next
  case (3 a b r)
  then show ?case by auto
qed

section \<open>The compilers on the reference syntax\<close>

lemma label_leaf [simp]: "label (leaf l) = l"
  by (simp add: leaf_def)

lemma compile_Expr1: "toNFAfromParseTree (node (js ''Expr'') [t]) h = toNFAfromParseTree t h"
  by (simp add: node_def child_def split: sum.splits)

lemma compile_Expr3:
  "toNFAfromParseTree (node (js ''Expr'') [t, l, e]) h =
     (case toNFAfromParseTree t h of Inl x \<Rightarrow> Inl x | Inr (trm, h1) \<Rightarrow>
        (case toNFAfromParseTree e h1 of Inl x \<Rightarrow> Inl x | Inr (r, h2) \<Rightarrow>
           Inr (union_nfa trm r h2)))"
  by (simp add: node_def child_def split: sum.splits prod.splits)

lemma compile_Term1: "toNFAfromParseTree (node (js ''Term'') [t]) h = toNFAfromParseTree t h"
  by (simp add: node_def child_def split: sum.splits)

lemma compile_Term2:
  "toNFAfromParseTree (node (js ''Term'') [f, t]) h =
     (case toNFAfromParseTree f h of Inl x \<Rightarrow> Inl x | Inr (factr, h1) \<Rightarrow>
        (case toNFAfromParseTree t h1 of Inl x \<Rightarrow> Inl x | Inr (r, h2) \<Rightarrow>
           Inr (concat_nfa factr r h2)))"
  by (simp add: node_def child_def split: sum.splits prod.splits)

lemma compile_Factor1: "toNFAfromParseTree (node (js ''Factor'') [t]) h = toNFAfromParseTree t h"
  by (simp add: node_def child_def split: sum.splits)

lemma compile_Factor2:
  "toNFAfromParseTree (node (js ''Factor'') [a, leaf (Some [meta_char m])]) h =
     (case toNFAfromParseTree a h of Inl x \<Rightarrow> Inl x | Inr (atm, h1) \<Rightarrow>
        Inr (case m of MStar \<Rightarrow> closure atm h1 | MPlus \<Rightarrow> oneOrMore atm h1
             | MOpt \<Rightarrow> zeroOrOne atm h1))"
  by (cases m) (simp_all add: node_def child_def Let_def split: sum.splits)

lemma compile_Atom1: "toNFAfromParseTree (node (js ''Atom'') [t]) h = toNFAfromParseTree t h"
  by (simp add: node_def child_def)

lemma compile_Atom3: "toNFAfromParseTree (node (js ''Atom'') [l, e, r]) h = toNFAfromParseTree e h"
  by (simp add: node_def child_def)

lemma compile_Char: "toNFAfromParseTree (tree_char c) h = Inr (fromSymbol (Some [sym_char c]) h)"
  by (cases c) (simp_all add: node_def child_def)

lemma compile_syntax:
  "\<exists>N h'. toNFAfromParseTree (tree_expr e) h = Inr (N, h') \<and> built h h' N \<and> lang h' N = symbols ` lang_expr e"
  "\<exists>N h'. toNFAfromParseTree (tree_term t) h = Inr (N, h') \<and> built h h' N \<and> lang h' N = symbols ` lang_term t"
  "\<exists>N h'. toNFAfromParseTree (tree_factor f) h = Inr (N, h') \<and> built h h' N \<and> lang h' N = symbols ` lang_factor f"
  "\<exists>N h'. toNFAfromParseTree (tree_atom a) h = Inr (N, h') \<and> built h h' N \<and> lang h' N = symbols ` lang_atom a"
proof (induction e and t and f and a arbitrary: h and h and h and h)
  case (ETerm t)
  then show ?case by (simp add: compile_Expr1)
next
  case (EAlt t e)
  from EAlt(1)[of h] obtain A h1 where
    a: "toNFAfromParseTree (tree_term t) h = Inr (A, h1)" "built h h1 A" "lang h1 A = symbols ` lang_term t"
    by auto
  from EAlt(2)[of h1] obtain B h2 where
    b: "toNFAfromParseTree (tree_expr e) h1 = Inr (B, h2)" "built h1 h2 B" "lang h2 B = symbols ` lang_expr e"
    by auto
  obtain N h3 where r: "union_nfa A B h2 = (N, h3)" by (cases "union_nfa A B h2")
  from built_union[OF a(2) b(2) r] a b r show ?case by (simp add: compile_Expr3 image_Un)
next
  case (TFactor f)
  then show ?case by (simp add: compile_Term1)
next
  case (TSeq f t)
  from TSeq(1)[of h] obtain A h1 where
    a: "toNFAfromParseTree (tree_factor f) h = Inr (A, h1)" "built h h1 A" "lang h1 A = symbols ` lang_factor f"
    by auto
  from TSeq(2)[of h1] obtain B h2 where
    b: "toNFAfromParseTree (tree_term t) h1 = Inr (B, h2)" "built h1 h2 B" "lang h2 B = symbols ` lang_term t"
    by auto
  obtain N h3 where r: "concat_nfa A B h2 = (N, h3)" by (cases "concat_nfa A B h2")
  from built_concat[OF a(2) b(2) r] a b r show ?case by (simp add: compile_Term2)
next
  case (FAtom a)
  then show ?case by (simp add: compile_Factor1)
next
  case (FMeta a m)
  from FMeta[of h] obtain A h1 where
    a: "toNFAfromParseTree (tree_atom a) h = Inr (A, h1)" "built h h1 A" "lang h1 A = symbols ` lang_atom a"
    by auto
  show ?case
  proof (cases m)
    case MStar
    obtain N h2 where r: "closure A h1 = (N, h2)" by (cases "closure A h1")
    from built_closure[OF a(2) r] a r MStar show ?thesis
      by (simp add: compile_Factor2[where m = MStar, simplified])
  next
    case MPlus
    obtain N h2 where r: "oneOrMore A h1 = (N, h2)" by (cases "oneOrMore A h1")
    from built_oneOrMore[OF a(2) r] a r MPlus show ?thesis
      by (simp add: compile_Factor2[where m = MPlus, simplified])
  next
    case MOpt
    obtain N h2 where r: "zeroOrOne A h1 = (N, h2)" by (cases "zeroOrOne A h1")
    from built_zeroOrOne[OF a(2) r] a r MOpt show ?thesis
      by (simp add: compile_Factor2[where m = MOpt, simplified])
  qed
next
  case (AChar c)
  obtain N h' where r: "fromSymbol (Some [sym_char c]) h = (N, h')"
    by (cases "fromSymbol (Some [sym_char c]) h")
  from built_fromSymbol[OF r] fromSymbol_correct(2)[OF r] r show ?case
    by (simp add: compile_Atom1 compile_Char)
next
  case (AGroup e)
  then show ?case by (simp add: compile_Atom3)
qed

lemma postfix_syntax:
  "plain_expr e \<Longrightarrow> \<exists>N h'. fold toNFA_step (symbols (post_expr e)) (st, h) = (N # st, h') \<and>
      built h h' N \<and> lang h' N = symbols ` lang_expr e"
  "plain_term t \<Longrightarrow> \<exists>N h'. fold toNFA_step (symbols (post_term t)) (st, h) = (N # st, h') \<and>
      built h h' N \<and> lang h' N = symbols ` lang_term t"
  "plain_factor f \<Longrightarrow> \<exists>N h'. fold toNFA_step (symbols (post_factor f)) (st, h) = (N # st, h') \<and>
      built h h' N \<and> lang h' N = symbols ` lang_factor f"
  "plain_atom a \<Longrightarrow> \<exists>N h'. fold toNFA_step (symbols (post_atom a)) (st, h) = (N # st, h') \<and>
      built h h' N \<and> lang h' N = symbols ` lang_atom a"
proof (induction e and t and f and a arbitrary: st h and st h and st h and st h)
  case (ETerm t)
  then show ?case by simp
next
  case (EAlt t e)
  from EAlt(1)[of st h] EAlt(3) obtain A h1 where
    a: "fold toNFA_step (symbols (post_term t)) (st, h) = (A # st, h1)" "built h h1 A"
      "lang h1 A = symbols ` lang_term t" by auto
  from EAlt(2)[of "A # st" h1] EAlt(3) obtain B h2 where
    b: "fold toNFA_step (symbols (post_expr e)) (A # st, h1) = (B # A # st, h2)" "built h1 h2 B"
      "lang h2 B = symbols ` lang_expr e" by auto
  obtain N h3 where r: "union_nfa A B h2 = (N, h3)" by (cases "union_nfa A B h2")
  from built_union[OF a(2) b(2) r] a b r show ?case by (simp add: image_Un)
next
  case (TFactor f)
  then show ?case by simp
next
  case (TSeq f t)
  from TSeq(1)[of st h] TSeq(3) obtain A h1 where
    a: "fold toNFA_step (symbols (post_factor f)) (st, h) = (A # st, h1)" "built h h1 A"
      "lang h1 A = symbols ` lang_factor f" by auto
  from TSeq(2)[of "A # st" h1] TSeq(3) obtain B h2 where
    b: "fold toNFA_step (symbols (post_term t)) (A # st, h1) = (B # A # st, h2)" "built h1 h2 B"
      "lang h2 B = symbols ` lang_term t" by auto
  obtain N h3 where r: "concat_nfa A B h2 = (N, h3)" by (cases "concat_nfa A B h2")
  from built_concat[OF a(2) b(2) r] a b r show ?case by simp
next
  case (FAtom a)
  then show ?case by simp
next
  case (FMeta a m)
  from FMeta(1)[of st h] FMeta(2) obtain A h1 where
    a: "fold toNFA_step (symbols (post_atom a)) (st, h) = (A # st, h1)" "built h h1 A"
      "lang h1 A = symbols ` lang_atom a" by auto
  show ?case
  proof (cases m)
    case MStar
    obtain N h2 where r: "closure A h1 = (N, h2)" by (cases "closure A h1")
    from built_closure[OF a(2) r] a r MStar show ?thesis by simp
  next
    case MPlus
    obtain N h2 where r: "oneOrMore A h1 = (N, h2)" by (cases "oneOrMore A h1")
    from built_oneOrMore[OF a(2) r] a r MPlus show ?thesis by simp
  next
    case MOpt
    obtain N h2 where r: "zeroOrOne A h1 = (N, h2)" by (cases "zeroOrOne A h1")
    from built_zeroOrOne[OF a(2) r] a r MOpt show ?thesis by simp
  qed
next
  case (AChar c)
  obtain N h' where r: "fromSymbol (Some [sym_char c]) h = (N, h')"
    by (cases "fromSymbol (Some [sym_char c]) h")
  from built_fromSymbol[OF r] fromSymbol_correct(2)[OF r] r AChar show ?case
    by (simp add: operator_def)
next
  case (AGroup e)
  then show ?case by simp
qed

section \<open>The compilers on any input\<close>

lemma compile_built: "toNFAfromParseTree t h = Inr (N, h') \<Longrightarrow> built h h' N"
proof (induction t h arbitrary: N h' rule: toNFAfromParseTree.induct)
  case (1 lbl h)
  then show ?case by simp
next
  case (2 lbl cs h)
  note r = "2.prems"
  consider (E) "lbl = Some (js ''Expr'')" | (T) "lbl = Some (js ''Term'')" | (F) "lbl = Some (js ''Factor'')"
    | (A) "lbl = Some (js ''Atom'')" | (C) "lbl = Some (js ''Char'')"
    | (O) "lbl \<noteq> Some (js ''Expr'')" "lbl \<noteq> Some (js ''Term'')" "lbl \<noteq> Some (js ''Factor'')"
        "lbl \<noteq> Some (js ''Atom'')" "lbl \<noteq> Some (js ''Char'')"
    by blast
  then show ?case
  proof cases
    case E
    from r E obtain c0 where c0: "child cs 0 = Some c0"
      by (auto split: option.splits)
    from r E c0 obtain A h1 where a: "toNFAfromParseTree c0 h = Inr (A, h1)"
      by (auto split: sum.splits)
    have ba: "built h h1 A" using "2.IH"(1)[OF E c0 a] .
    show ?thesis
    proof (cases "length cs = 3")
      case True
      from r E c0 a True obtain B h2 where b: "toNFAfromParseTree (cs ! 2) h1 = Inr (B, h2)"
        by (auto split: sum.splits)
      have bb: "built h1 h2 B" using "2.IH"(2)[OF E c0 a refl True b] .
      from r E c0 a True b have "union_nfa A B h2 = (N, h')" by simp
      from built_union(1)[OF ba bb this] show ?thesis .
    next
      case False
      with r E c0 a have "N = A" "h' = h1" by auto
      with ba show ?thesis by simp
    qed
  next
    case T
    from r T obtain c0 where c0: "child cs 0 = Some c0"
      by (auto split: option.splits)
    from r T c0 obtain A h1 where a: "toNFAfromParseTree c0 h = Inr (A, h1)"
      by (auto split: sum.splits)
    have ne: "lbl \<noteq> Some (js ''Expr'')" using T by simp
    have ba: "built h h1 A" using "2.IH"(3)[OF ne T c0 a] .
    show ?thesis
    proof (cases "length cs = 2")
      case True
      from r T c0 a True obtain B h2 where b: "toNFAfromParseTree (cs ! 1) h1 = Inr (B, h2)"
        by (auto split: sum.splits)
      have bb: "built h1 h2 B" using "2.IH"(4)[OF ne T c0 a refl True b] .
      from r T c0 a True b have "concat_nfa A B h2 = (N, h')" by simp
      from built_concat(1)[OF ba bb this] show ?thesis .
    next
      case False
      with r T c0 a have "N = A" "h' = h1" by auto
      with ba show ?thesis by simp
    qed
  next
    case F
    from r F obtain c0 where c0: "child cs 0 = Some c0"
      by (auto split: option.splits)
    from r F c0 obtain A h1 where a: "toNFAfromParseTree c0 h = Inr (A, h1)"
      by (auto split: sum.splits)
    have ne: "lbl \<noteq> Some (js ''Expr'')" "lbl \<noteq> Some (js ''Term'')" using F by simp_all
    have ba: "built h h1 A" using "2.IH"(5)[OF ne F c0 a] .
    from r F c0 a have "closure A h1 = (N, h') \<or> oneOrMore A h1 = (N, h') \<or>
        zeroOrOne A h1 = (N, h') \<or> (N = A \<and> h' = h1)"
      by (auto simp: Let_def split: if_splits)
    with ba show ?thesis
      by (auto dest: built_closure(1) built_oneOrMore(1) built_zeroOrOne(1))
  next
    case A
    have ne: "lbl \<noteq> Some (js ''Expr'')" "lbl \<noteq> Some (js ''Term'')" "lbl \<noteq> Some (js ''Factor'')"
      using A by simp_all
    show ?thesis
    proof (cases "length cs = 3")
      case True
      with r A have "toNFAfromParseTree (cs ! 1) h = Inr (N, h')" by simp
      from "2.IH"(6)[OF ne A True this] show ?thesis .
    next
      case False
      from r A False obtain c0 where c0: "child cs 0 = Some c0"
        by (auto split: option.splits)
      with r A False have "toNFAfromParseTree c0 h = Inr (N, h')" by simp
      from "2.IH"(7)[OF ne A False c0 this] show ?thesis .
    qed
  next
    case C
    from r C obtain symbol where "fromSymbol symbol h = (N, h')"
      by (auto split: if_splits option.splits)
    then show ?thesis by (rule built_fromSymbol)
  next
    case O
    with r show ?thesis by simp
  qed
qed

inductive_cases stk_ConsE: "stk h hi (N # rest)"

lemma stk_frame:
  "stk h hi st \<Longrightarrow> \<forall>a<hi. deref h' a = deref h a \<Longrightarrow> length h \<le> length h' \<Longrightarrow> stk h' hi st"
proof (induction rule: stk.induct)
  case (stk_Nil hi)
  then have "hi \<le> length h'" by simp
  then show ?case by (rule stk.stk_Nil)
next
  case (stk_Cons N lo hi rest)
  have ag: "\<forall>a\<in>{lo..<hi}. deref h' a = deref h a" using stk_Cons.prems(1) by simp
  have 1: "frag h' N {lo..<hi}"
    by (rule frag_frame(1)[OF stk_Cons.hyps(1) ag stk_Cons.prems(2)])
  have "\<forall>a<lo. deref h' a = deref h a" using stk_Cons.prems(1) stk_Cons.hyps(2) by simp
  then have 2: "stk h' lo rest" using stk_Cons.IH stk_Cons.prems(2) by simp
  have 3: "hi \<le> length h'" using stk_Cons.hyps(3) stk_Cons.prems(2) by simp
  show ?case by (rule stk.stk_Cons[OF 1 stk_Cons.hyps(2) 3 2])
qed

lemma stk_empty: "stk h (length h) []"
  by (simp add: stk.stk_Nil)

lemma stk_push:
  assumes s: "stk h (length h) st" and b: "built h h' N"
  shows "stk h' (length h') (N # st)"
proof -
  from b have "frag h' N {length h..<length h'}" "length h < length h'"
    "\<forall>a<length h. deref h' a = deref h a" by (auto simp: built_def)
  with stk_frame[OF s, of h'] show ?thesis by (auto intro!: stk.stk_Cons)
qed

lemma stk_wrap:
  assumes s: "stk h (length h) (A # st)"
    and u: "\<And>S. frag h A S \<Longrightarrow> frag h' N (S \<union> {length h, length h + 1}) \<and>
      length h' = length h + 2 \<and>
      (\<forall>a. a < length h \<longrightarrow> a \<noteq> end' A \<longrightarrow> deref h' a = deref h a)"
  shows "stk h' (length h') (N # st)"
proof -
  from s obtain lo where f: "frag h A {lo..<length h}" and lo: "lo < length h"
    and rest: "stk h lo st" by (auto elim: stk_ConsE)
  from u[OF f] have u1: "frag h' N ({lo..<length h} \<union> {length h, length h + 1})"
    and u2: "length h' = length h + 2"
    and u3: "\<forall>a. a < length h \<longrightarrow> a \<noteq> end' A \<longrightarrow> deref h' a = deref h a" by auto
  have "{lo..<length h} \<union> {length h, length h + 1} = {lo..<length h'}"
    using lo u2 by auto
  with u1 have 1: "frag h' N {lo..<length h'}" by simp
  from f have "lo \<le> end' A" by (auto simp: frag_def)
  with u3 lo have "\<forall>a<lo. deref h' a = deref h a" by auto
  from stk_frame[OF rest this] u2 have "stk h' lo st" by simp
  with 1 lo u2 show ?thesis by (auto intro!: stk.stk_Cons)
qed

lemma stk_binary:
  assumes s: "stk h (length h) (B # A # st)"
    and u: "\<And>S T. frag h A S \<Longrightarrow> frag h B T \<Longrightarrow> S \<inter> T = {} \<Longrightarrow>
        frag h' N (S \<union> T \<union> {length h..<length h'}) \<and> length h \<le> length h' \<and>
        (\<forall>a. a < length h \<longrightarrow> a \<noteq> end' A \<longrightarrow> a \<noteq> end' B \<longrightarrow> deref h' a = deref h a)"
  shows "stk h' (length h') (N # st)"
proof -
  from s obtain mid where g: "frag h B {mid..<length h}" and mid: "mid < length h"
    and rest1: "stk h mid (A # st)" by (auto elim: stk_ConsE)
  from rest1 obtain lo where f: "frag h A {lo..<mid}" and lo: "lo < mid"
    and rest: "stk h lo st" by (auto elim: stk_ConsE)
  have dj: "{lo..<mid} \<inter> {mid..<length h} = {}" by auto
  from u[OF f g dj] have u1: "frag h' N ({lo..<mid} \<union> {mid..<length h} \<union> {length h..<length h'})"
    and u2: "length h \<le> length h'"
    and u3: "\<forall>a. a < length h \<longrightarrow> a \<noteq> end' A \<longrightarrow> a \<noteq> end' B \<longrightarrow> deref h' a = deref h a"
    by auto
  have "{lo..<mid} \<union> {mid..<length h} \<union> {length h..<length h'} = {lo..<length h'}"
    using lo mid u2 by auto
  with u1 have 1: "frag h' N {lo..<length h'}" by simp
  from f have a: "lo \<le> end' A" by (auto simp: frag_def)
  from g have b: "lo \<le> end' B" using lo by (auto simp: frag_def)
  from a b u3 lo mid have "\<forall>a<lo. deref h' a = deref h a" by auto
  from stk_frame[OF rest this u2] have "stk h' lo st" .
  with 1 lo mid u2 show ?thesis by (auto intro!: stk.stk_Cons)
qed

lemma stk_closure:
  assumes s: "stk h (length h) (A # st)" and r: "closure A h = (N, h')"
  shows "stk h' (length h') (N # st)"
proof (rule stk_wrap[OF s])
  fix S assume f: "frag h A S"
  note u = closure_correct[OF f r]
  from u(1) u(3) u(4) show "frag h' N (S \<union> {length h, length h + 1}) \<and>
      length h' = length h + 2 \<and>
      (\<forall>a. a < length h \<longrightarrow> a \<noteq> end' A \<longrightarrow> deref h' a = deref h a)"
    by simp
qed

lemma stk_zeroOrOne:
  assumes s: "stk h (length h) (A # st)" and r: "zeroOrOne A h = (N, h')"
  shows "stk h' (length h') (N # st)"
proof (rule stk_wrap[OF s])
  fix S assume f: "frag h A S"
  note u = zeroOrOne_correct[OF f r]
  from u(1) u(3) u(4) show "frag h' N (S \<union> {length h, length h + 1}) \<and>
      length h' = length h + 2 \<and>
      (\<forall>a. a < length h \<longrightarrow> a \<noteq> end' A \<longrightarrow> deref h' a = deref h a)"
    by simp
qed

lemma stk_oneOrMore:
  assumes s: "stk h (length h) (A # st)" and r: "oneOrMore A h = (N, h')"
  shows "stk h' (length h') (N # st)"
proof (rule stk_wrap[OF s])
  fix S assume f: "frag h A S"
  note u = oneOrMore_correct[OF f r]
  from u(1) u(3) u(4) show "frag h' N (S \<union> {length h, length h + 1}) \<and>
      length h' = length h + 2 \<and>
      (\<forall>a. a < length h \<longrightarrow> a \<noteq> end' A \<longrightarrow> deref h' a = deref h a)"
    by simp
qed

lemma stk_union:
  assumes s: "stk h (length h) (B # A # st)" and r: "union_nfa A B h = (N, h')"
  shows "stk h' (length h') (N # st)"
proof (rule stk_binary[OF s])
  fix S T assume f: "frag h A S" "frag h B T" "S \<inter> T = {}"
  note u = union_correct[OF f r]
  have "{length h..<length h'} = {length h, length h + 1}" using u(3) by auto
  with u show "frag h' N (S \<union> T \<union> {length h..<length h'}) \<and> length h \<le> length h' \<and>
        (\<forall>a. a < length h \<longrightarrow> a \<noteq> end' A \<longrightarrow> a \<noteq> end' B \<longrightarrow> deref h' a = deref h a)"
    by simp
qed

lemma stk_concat:
  assumes s: "stk h (length h) (B # A # st)" and r: "concat_nfa A B h = (N, h')"
  shows "stk h' (length h') (N # st)"
proof (rule stk_binary[OF s])
  fix S T assume f: "frag h A S" "frag h B T" "S \<inter> T = {}"
  note u = concat_correct[OF f r]
  have "{length h..<length h'} = {}" using u(3) by auto
  with u show "frag h' N (S \<union> T \<union> {length h..<length h'}) \<and> length h \<le> length h' \<and>
        (\<forall>a. a < length h \<longrightarrow> a \<noteq> end' A \<longrightarrow> a \<noteq> end' B \<longrightarrow> deref h' a = deref h a)"
    by simp
qed

lemma toNFA_step_stk:
  assumes s: "stk h (length h) st" and r: "toNFA_step token (st, h) = (st', h')"
  shows "stk h' (length h') st'"
proof -
  have nil: "stk h (length h) []" by (rule stk_empty)
  consider (star) "token = [cu CHR ''*'']" | (opt) "token = [cu CHR ''?'']" | (plus) "token = [cu CHR ''+'']"
    | (alt) "token = [cu CHR ''|'']" | (dot) "token = [cu CHR ''.'']"
    | (sym) "token \<noteq> [cu CHR ''*'']" "token \<noteq> [cu CHR ''?'']" "token \<noteq> [cu CHR ''+'']"
        "token \<noteq> [cu CHR ''|'']" "token \<noteq> [cu CHR ''.'']"
    by blast
  then show ?thesis
  proof cases
    case star
    show ?thesis
    proof (cases st)
      case Nil
      with r star nil show ?thesis by simp
    next
      case (Cons A rest)
      with r star obtain N where c: "closure A h = (N, h')" "st' = N # rest"
        by (auto split: prod.splits)
      from stk_closure[OF s[unfolded Cons] c(1)] c(2) show ?thesis by simp
    qed
  next
    case opt
    show ?thesis
    proof (cases st)
      case Nil
      with r opt nil show ?thesis by simp
    next
      case (Cons A rest)
      with r opt obtain N where c: "zeroOrOne A h = (N, h')" "st' = N # rest"
        by (auto split: prod.splits)
      from stk_zeroOrOne[OF s[unfolded Cons] c(1)] c(2) show ?thesis by simp
    qed
  next
    case plus
    show ?thesis
    proof (cases st)
      case Nil
      with r plus nil show ?thesis by simp
    next
      case (Cons A rest)
      with r plus obtain N where c: "oneOrMore A h = (N, h')" "st' = N # rest"
        by (auto split: prod.splits)
      from stk_oneOrMore[OF s[unfolded Cons] c(1)] c(2) show ?thesis by simp
    qed
  next
    case alt
    show ?thesis
    proof (cases st)
      case Nil
      with r alt nil show ?thesis by simp
    next
      case (Cons B rest)
      note B = Cons
      show ?thesis
      proof (cases rest)
        case Nil
        with r alt B nil show ?thesis by simp
      next
        case (Cons A rest')
        with r alt B obtain N where
          c: "union_nfa A B h = (N, h')" "st' = N # rest'"
          by (auto split: prod.splits)
        from stk_union[OF s[unfolded B Cons] c(1)] c(2) show ?thesis by simp
      qed
    qed
  next
    case dot
    show ?thesis
    proof (cases st)
      case Nil
      with r dot nil show ?thesis by simp
    next
      case (Cons B rest)
      note B = Cons
      show ?thesis
      proof (cases rest)
        case Nil
        with r dot B nil show ?thesis by simp
      next
        case (Cons A rest')
        with r dot B obtain N where
          c: "concat_nfa A B h = (N, h')" "st' = N # rest'"
          by (auto split: prod.splits)
        from stk_concat[OF s[unfolded B Cons] c(1)] c(2) show ?thesis by simp
      qed
    qed
  next
    case sym
    with r obtain N where c: "fromSymbol (Some token) h = (N, h')" "st' = N # st"
      by (auto split: prod.splits)
    from stk_push[OF s built_fromSymbol[OF c(1)]] c(2) show ?thesis by simp
  qed
qed

lemma fold_toNFA_step_stk:
  "stk h (length h) st \<Longrightarrow> fold toNFA_step ts (st, h) = (st', h') \<Longrightarrow> stk h' (length h') st'"
proof (induction ts arbitrary: st h)
  case Nil
  then show ?case by simp
next
  case (Cons t ts)
  obtain st1 h1 where 1: "toNFA_step t (st, h) = (st1, h1)" by (cases "toNFA_step t (st, h)")
  from toNFA_step_stk[OF Cons.prems(1) 1] Cons.IH[of h1 st1] Cons.prems(2) 1 show ?case by simp
qed

lemma toNFA_frag:
  assumes "toNFA ts h = (Some N, h')"
  shows "\<exists>lo hi. frag h' N {lo..<hi}"
proof (cases "ts = []")
  case True
  with assms have "fromEpsilon h = (N, h')" by (auto simp: toNFA_def split: prod.splits)
  from built_fromEpsilon[OF this] show ?thesis by (auto simp: built_def)
next
  case False
  obtain st h1 where f: "fold toNFA_step (codePoints ts) ([], h) = (st, h1)"
    by (cases "fold toNFA_step (codePoints ts) ([], h)")
  with assms False obtain rest where st: "st = N # rest" "h1 = h'"
    by (auto simp: toNFA_def split: list.splits)
  from fold_toNFA_step_stk[OF stk_empty f] st have "stk h' (length h') (N # rest)" by simp
  then obtain lo where "frag h' N {lo..<length h'}" by (auto elim: stk_ConsE)
  then show ?thesis by blast
qed

section \<open>The compilers and the matcher against the reference semantics\<close>

lemma recognize_lang: "frag h A S \<Longrightarrow> recognize h A w \<longleftrightarrow> codePoints w \<in> lang h A"
  by (simp add: recognize_def frag_search)

lemma built_recognize: "built h h' N \<Longrightarrow> recognize h' N w \<longleftrightarrow> codePoints w \<in> lang h' N"
  unfolding built_def using recognize_lang by blast

lemma infix_correct:
  assumes "wf_expr e"
  shows "\<exists>N g' h'. toNFAFromInfixExp (pat_expr e) (g, h) = Inr (N, g', h') \<and>
      built h h' N \<and> lang h' N = symbols ` lang_expr e"
proof -
  from pat_starts(1)[OF assms] have ne: "pat_expr e \<noteq> []" by auto
  from compile_syntax(1)[of e h] obtain N h' where
    "toNFAfromParseTree (tree_expr e) h = Inr (N, h')" "built h h' N"
    "lang h' N = symbols ` lang_expr e"
    by auto
  with ne toParseTree_syntax[OF assms, of g] show ?thesis
    by (simp add: toNFAFromInfixExp_def)
qed

lemma infix_empty:
  "\<exists>N h'. toNFAFromInfixExp [] (g, h) = Inr (N, g, h') \<and> built h h' N \<and> lang h' N = {[]}"
proof -
  obtain N h' where r: "fromEpsilon h = (N, h')" by (cases "fromEpsilon h")
  from built_fromEpsilon[OF r] fromEpsilon_correct(2)[OF r] r show ?thesis
    by (simp add: toNFAFromInfixExp_def)
qed

lemma postfix_correct:
  assumes "plain_expr e" and "codePoints (post_expr e) = symbols (post_expr e)"
  shows "\<exists>N h'. toNFA (post_expr e) h = (Some N, h') \<and> built h h' N \<and>
      lang h' N = symbols ` lang_expr e"
proof -
  have ne: "post_expr e \<noteq> []" "post_term t \<noteq> []" "post_factor f \<noteq> []" "post_atom a \<noteq> []"
    for e t f a
    by (induction e and t and f and a) auto
  from postfix_syntax(1)[OF assms(1), of "[]" h] obtain N h' where
    "fold toNFA_step (symbols (post_expr e)) ([], h) = ([N], h')" "built h h' N"
    "lang h' N = symbols ` lang_expr e"
    by auto
  with ne(1)[of e] assms(2) show ?thesis by (simp add: toNFA_def)
qed

text \<open>
  What holds for every pattern of the reference syntax. The automaton compiled from the
  pattern matches a word exactly if the pattern denotes it and the word holds no surrogate
  pair, so that its code points are its code units. The two compilers agree when, besides,
  the postfix form of the pattern holds no surrogate pair.
\<close>

lemma infix_recognize:
  assumes "wf_expr e"
  shows "\<exists>N g' h'. toNFAFromInfixExp (pat_expr e) (g, h) = Inr (N, g', h') \<and>
      (\<forall>w. recognize h' N w \<longleftrightarrow> w \<in> lang_expr e \<and> codePoints w = symbols w)"
proof -
  from infix_correct[OF assms, of g h] obtain N g' h' where
    "toNFAFromInfixExp (pat_expr e) (g, h) = Inr (N, g', h')" "built h h' N"
    "lang h' N = symbols ` lang_expr e" by auto
  then show ?thesis by (auto simp: built_recognize codePoints_in_symbols)
qed

lemma compilers_agree:
  assumes wf: "wf_expr e" and pl: "plain_expr e"
    and up: "codePoints (post_expr e) = symbols (post_expr e)"
  shows "\<exists>t g' N1 h1' N2 h2'.
        toParseTree (pat_expr e) g = Inr (t, g') \<and> toNFAfromParseTree t h1 = Inr (N1, h1') \<and>
        toNFA (post_expr e) h2 = (Some N2, h2') \<and>
        (\<forall>w. recognize h1' N1 w = recognize h2' N2 w)"
proof -
  from compile_syntax(1)[of e h1] obtain N1 h1' where
    1: "toNFAfromParseTree (tree_expr e) h1 = Inr (N1, h1')" "built h1 h1' N1"
      "lang h1' N1 = symbols ` lang_expr e" by auto
  from postfix_correct[OF pl up, of h2] obtain N2 h2' where
    2: "toNFA (post_expr e) h2 = (Some N2, h2')" "built h2 h2' N2"
      "lang h2' N2 = symbols ` lang_expr e"
    by auto
  from 1 2 have "\<forall>w. recognize h1' N1 w = recognize h2' N2 w"
    by (simp add: built_recognize)
  with 1(1) 2(1) toParseTree_syntax[OF wf, of g] show ?thesis by blast
qed

section \<open>Shape of the compiled automata\<close>

lemma frag_accepting: "frag h N S \<Longrightarrow> accepting h S = {end' N}"
  by (auto simp: frag_def accepting_def)

lemma frag_reachable: "frag h N S \<Longrightarrow> reachable h (start N) \<subseteq> S"
proof
  fix q assume f: "frag h N S" and "q \<in> reachable h (start N)"
  then have "(start N, q) \<in> {(a, b). b \<in> set (eps h a) \<or> b \<in> ran (trn h a)}\<^sup>*"
    by (simp add: reachable_def)
  then show "q \<in> S"
  proof (induction rule: rtrancl_induct)
    case base
    from f show ?case by (simp add: frag_def)
  next
    case (step y z)
    with f show ?case unfolding frag_def by blast
  qed
qed

lemma frag_thompson: "frag h N S \<Longrightarrow> thompson h N"
  using frag_reachable[of h N S] unfolding thompson_def frag_def by blast

section \<open>Concrete stores\<close>

lemmas store_defs = createState_def addEpsilonTransition_def addTransition_def setIsEnd_def
  propertyKey_def Let_def

lemmas matcher_defs = recognize_def search_def search_step_def addNextState.simps deref_def
  highSurrogate_def lowSurrogate_def

lemma hab_eq:
  "hab = [\<lparr>isEnd = False, transition = [[cu CHR ''a''] \<mapsto> 1], epsilonTransitions = []\<rparr>,
          \<lparr>isEnd = True, transition = Map.empty, epsilonTransitions = []\<rparr>,
          \<lparr>isEnd = False, transition = [[cu CHR ''b''] \<mapsto> 3], epsilonTransitions = []\<rparr>,
          \<lparr>isEnd = True, transition = Map.empty, epsilonTransitions = []\<rparr>]"
  by (simp add: hab_def fromSymbol_def store_defs numeral_3_eq_3)

lemma eval_hsur:
  "union_nfa \<lparr>start = 0, end' = 1\<rparr> \<lparr>start = 2, end' = 3\<rparr>
     (snd (fromSymbol (Some [0xDE00]) (snd (fromSymbol (Some [0xD83D]) []))))
   = (\<lparr>start = 4, end' = 5\<rparr>, hsur)"
  by (simp add: union_nfa_def fromSymbol_def store_defs hsur_def numeral_3_eq_3 eval_nat_numeral)

lemma eval_hsur_match:
  "recognize hsur \<lparr>start = 4, end' = 5\<rparr> [0xD83D]" "recognize hsur \<lparr>start = 4, end' = 5\<rparr> [0xDE00]"
  by (simp_all add: matcher_defs hsur_def)

lemma eval_hsur_closure:
  "\<not> recognize (snd (closure \<lparr>start = 4, end' = 5\<rparr> hsur)) (fst (closure \<lparr>start = 4, end' = 5\<rparr> hsur))
      [0xD83D, 0xDE00]"
  by (simp add: matcher_defs closure_def store_defs hsur_def)

lemma eval_pair_tree:
  "toParseTree smiley g =
     Inr (node (js ''Expr'') [node (js ''Term'')
            [node (js ''Factor'') [node (js ''Atom'') [node (js ''Char'') [leaf (Some [0xD83D])]]],
             node (js ''Term'')
               [node (js ''Factor'') [node (js ''Atom'') [node (js ''Char'') [leaf (Some [0xDE00])]]]]]],
          \<lparr>pattern = smiley, pos = 2\<rparr>)"
  by (cases g) (simp add: char_r_def match_def next_ch_def peek_def hasMoreChars_def isMetaChar_def
      str_def toParseTree_def expr.simps term_r.simps factor.simps atom.simps smiley_def cu_def)

lemma eval_pair_compile:
  "toNFAfromParseTree (node (js ''Expr'') [node (js ''Term'')
            [node (js ''Factor'') [node (js ''Atom'') [node (js ''Char'') [leaf (Some [0xD83D])]]],
             node (js ''Term'')
               [node (js ''Factor'') [node (js ''Atom'') [node (js ''Char'') [leaf (Some [0xDE00])]]]]]]) []
   = Inr (\<lparr>start = 0, end' = 3\<rparr>, hpair)"
  by (simp add: node_def leaf_def child_def fromSymbol_def concat_nfa_def store_defs hpair_def
      numeral_3_eq_3 eval_nat_numeral)

lemma eval_pair_postfix: "toNFA smiley [] = (Some \<lparr>start = 0, end' = 1\<rparr>, hone)"
  by (simp add: toNFA_def fromSymbol_def store_defs hone_def smiley_def highSurrogate_def
      lowSurrogate_def cu_def)

lemma eval_pair_match:
  "\<not> recognize hpair \<lparr>start = 0, end' = 3\<rparr> smiley" "recognize hone \<lparr>start = 0, end' = 1\<rparr> smiley"
  by (simp_all add: matcher_defs hpair_def hone_def smiley_def)

lemma eval_pair_postfix_dot: "toNFA (smiley @ [cu CHR ''.'']) [] = (None, hone)"
  by (simp add: toNFA_def fromSymbol_def store_defs hone_def smiley_def highSurrogate_def
      lowSurrogate_def cu_def)

lemma eval_union_trace:
  "map isEnd (union_trace \<lparr>start = 0, end' = 1\<rparr> \<lparr>start = 2, end' = 3\<rparr> hab ! 3)
     = [False, True, False, True, False, True]"
  by (simp add: union_trace_def store_defs hab_eq numeral_3_eq_3)

lemma eval_wrap_trace:
  "map isEnd (closure_trace \<lparr>start = 0, end' = 1\<rparr> ha ! 1) = [False, True, False, True]"
  "map isEnd (zeroOrOne_trace \<lparr>start = 0, end' = 1\<rparr> ha ! 1) = [False, True, False, True]"
  "map isEnd (oneOrMore_trace \<lparr>start = 0, end' = 1\<rparr> ha ! 1) = [False, True, False, True]"
  by (simp_all add: closure_trace_def zeroOrOne_trace_def oneOrMore_trace_def store_defs ha_def)

lemma trace_last:
  "snd (union_nfa A B h) = last (union_trace A B h)"
  "snd (closure A h) = last (closure_trace A h)"
  "snd (zeroOrOne A h) = last (zeroOrOne_trace A h)"
  "snd (oneOrMore A h) = last (oneOrMore_trace A h)"
  by (simp_all add: union_nfa_def union_trace_def closure_def closure_trace_def
      zeroOrOne_def zeroOrOne_trace_def oneOrMore_def oneOrMore_trace_def createState_def Let_def)

lemma hab_frags:
  "frag hab \<lparr>start = 0, end' = 1\<rparr> {0, 1}" "frag hab \<lparr>start = 2, end' = 3\<rparr> {2, 3}"
  "lang hab \<lparr>start = 0, end' = 1\<rparr> = {[[cu CHR ''a'']]}"
  "lang hab \<lparr>start = 2, end' = 3\<rparr> = {[[cu CHR ''b'']]}"
  "length hab = 4"
proof -
  obtain A h1 where a: "fromSymbol (Some [cu CHR ''a'']) [] = (A, h1)"
    by (cases "fromSymbol (Some [cu CHR ''a'']) []")
  obtain B h2 where b: "fromSymbol (Some [cu CHR ''b'']) h1 = (B, h2)"
    by (cases "fromSymbol (Some [cu CHR ''b'']) h1")
  note ca = fromSymbol_correct[OF a] and cb = fromSymbol_correct[OF b]
  from a b have h: "hab = h2" by (simp add: hab_def)
  from ca have A: "A = \<lparr>start = 0, end' = 1\<rparr>" and l1: "length h1 = 2" by simp_all
  from cb l1 have B: "B = \<lparr>start = 2, end' = 3\<rparr>" and l2: "length h2 = 4" by simp_all
  from ca(1) have fa: "frag h1 A {0, 1}" by simp
  from cb(4) l1 have ag: "\<forall>a\<in>{0, 1}. deref h2 a = deref h1 a" by simp
  from frag_frame[OF fa ag] l1 l2 ca(2)
  have "frag h2 A {0, 1}" "lang h2 A = {[[cu CHR ''a'']]}" by simp_all
  with A h show "frag hab \<lparr>start = 0, end' = 1\<rparr> {0, 1}"
    "lang hab \<lparr>start = 0, end' = 1\<rparr> = {[[cu CHR ''a'']]}"
    by simp_all
  from cb(1) l1 have "frag h2 B {2, 3}" by (simp add: numeral_3_eq_3)
  with B h cb(2) show "frag hab \<lparr>start = 2, end' = 3\<rparr> {2, 3}"
    "lang hab \<lparr>start = 2, end' = 3\<rparr> = {[[cu CHR ''b'']]}" by simp_all
  from l2 h show "length hab = 4" by simp
qed

lemma hab_recognize:
  "recognize hab \<lparr>start = 0, end' = 1\<rparr> w \<longleftrightarrow> w = [cu CHR ''a'']"
  "recognize hab \<lparr>start = 2, end' = 3\<rparr> w \<longleftrightarrow> w = [cu CHR ''b'']"
proof -
  have s: "codePoints w = [[c]] \<longleftrightarrow> w = [c]" for c
    using codePoints_in_symbols[of w "{[c]}"] by auto
  from recognize_lang[OF hab_frags(1), of w] hab_frags(3) s
  show "recognize hab \<lparr>start = 0, end' = 1\<rparr> w \<longleftrightarrow> w = [cu CHR ''a'']" by simp
  from recognize_lang[OF hab_frags(2), of w] hab_frags(4) s
  show "recognize hab \<lparr>start = 2, end' = 3\<rparr> w \<longleftrightarrow> w = [cu CHR ''b'']" by simp
qed

lemma fromSymbol_a: "fromSymbol (Some [cu CHR ''a'']) [] = (\<lparr>start = 0, end' = 1\<rparr>, ha)"
  by (simp add: fromSymbol_def store_defs ha_def)

lemma fromSymbol_b: "fromSymbol (Some [cu CHR ''b'']) ha = (\<lparr>start = 2, end' = 3\<rparr>, hab)"
  by (simp add: fromSymbol_def store_defs ha_def hab_eq numeral_3_eq_3)

lemma closure_a: "closure \<lparr>start = 0, end' = 1\<rparr> ha = (\<lparr>start = 2, end' = 3\<rparr>, hstar)"
  by (simp add: closure_def store_defs ha_def hstar_def numeral_3_eq_3)

lemma eval_tree_star:
  "toNFAfromParseTree (node (js ''Factor'') [node (js ''Atom'')
       [node (js ''Char'') [leaf (Some [cu CHR ''a''])]], leaf (Some [cu CHR ''*''])]) []
     = Inr (\<lparr>start = 2, end' = 3\<rparr>, hstar)"
  using fromSymbol_a closure_a by (simp add: node_def leaf_def child_def)

lemma eval_postfix_star:
  "toNFA [cu CHR ''a'', cu CHR ''*''] [] = (Some \<lparr>start = 2, end' = 3\<rparr>, hstar)"
  using fromSymbol_a closure_a by (simp add: toNFA_def)

lemma eval_infix_star:
  "toNFAFromInfixExp [cu CHR ''a'', cu CHR ''*''] (\<lparr>pattern = [], pos = 0\<rparr>, [])
     = Inr (\<lparr>start = 2, end' = 3\<rparr>, \<lparr>pattern = [cu CHR ''a'', cu CHR ''*''], pos = 2\<rparr>, hstar)"
proof -
  have "toParseTree [cu CHR ''a'', cu CHR ''*''] \<lparr>pattern = [], pos = 0\<rparr> =
     Inr (node (js ''Expr'') [node (js ''Term'') [node (js ''Factor'') [node (js ''Atom'')
            [node (js ''Char'') [leaf (Some [cu CHR ''a''])]], leaf (Some [cu CHR ''*''])]]],
          \<lparr>pattern = [cu CHR ''a'', cu CHR ''*''], pos = 2\<rparr>)"
    by (simp add: char_r_def match_def next_ch_def peek_def hasMoreChars_def isMetaChar_def
      str_def toParseTree_def expr.simps term_r.simps factor.simps atom.simps)
  then show ?thesis
    by (simp add: toNFAFromInfixExp_def compile_Expr1 compile_Term1 eval_tree_star)
qed

lemma eval_addNextState_star: "addNextState hstar 2 ([], []) = ([3, 0], [3, 0])"
  by (simp add: addNextState.simps hstar_def deref_def)

section \<open>The claims\<close>

subsection \<open>Claim C1\<close>

text \<open>
  Claim C1 does not hold of the code. The parser reads the pattern one code unit at a time
  (\<open>pattern[pos]\<close>), the matcher reads the word one code point at a time
  (\<open>for (const symbol of word)\<close>). The pattern of the one character U+1F600, two code units,
  is compiled to the concatenation of two one-unit literals; the word U+1F600 is one symbol
  of two units, for which no state has a transition. So \<open>recognize\<close> returns false on a
  word that the pattern denotes: the word is the pattern's only literal.
\<close>

theorem infix_astral_literal:
  "toNFAFromInfixExp smiley (g, []) =
      Inr (\<lparr>start = 0, end' = 3\<rparr>, \<lparr>pattern = smiley, pos = 2\<rparr>, hpair) \<and>
   \<not> recognize hpair \<lparr>start = 0, end' = 3\<rparr> smiley \<and>
   codePoints smiley = [smiley] \<and>
   smiley = pat_expr (ETerm (TSeq (FAtom (AChar (Lit 0xD83D))) (TFactor (FAtom (AChar (Lit 0xDE00)))))) \<and>
   smiley \<in> lang_expr (ETerm (TSeq (FAtom (AChar (Lit 0xD83D))) (TFactor (FAtom (AChar (Lit 0xDE00))))))"
proof -
  have "smiley \<noteq> []" by (simp add: smiley_def)
  then have "toNFAFromInfixExp smiley (g, []) =
      Inr (\<lparr>start = 0, end' = 3\<rparr>, \<lparr>pattern = smiley, pos = 2\<rparr>, hpair)"
    by (simp add: toNFAFromInfixExp_def eval_pair_tree eval_pair_compile)
  moreover have "codePoints smiley = [smiley]"
    by (simp add: smiley_def highSurrogate_def lowSurrogate_def)
  moreover have "smiley \<in> lang_expr (ETerm (TSeq (FAtom (AChar (Lit 0xD83D)))
      (TFactor (FAtom (AChar (Lit 0xDE00))))))"
    by (simp add: smiley_def conc_def)
  ultimately show ?thesis using eval_pair_match(1) by (simp add: smiley_def)
qed

subsection \<open>Claim C2\<close>

text \<open>
  Claim C2 does not hold of the code, for the same reason as claim C1. The postfix compiler
  reads its tokens one code point at a time (\<open>for (const token of postfixExp)\<close>), the parser
  reads the pattern one code unit at a time. For the pattern of the one literal U+1F600, whose
  postfix form is the same string, the tree compiler builds an automaton of two one-unit
  literals and the postfix compiler an automaton of one two-unit literal: \<open>recognize\<close>
  returns false on the first and true on the second for the word U+1F600. With an explicit
  \<open>.\<close> after the two units, the postfix compiler returns \<open>undefined\<close>.
\<close>

theorem compilers_astral_literal:
  "(\<exists>t g'. toParseTree smiley g = Inr (t, g') \<and>
      toNFAfromParseTree t [] = Inr (\<lparr>start = 0, end' = 3\<rparr>, hpair)) \<and>
   toNFA smiley [] = (Some \<lparr>start = 0, end' = 1\<rparr>, hone) \<and>
   \<not> recognize hpair \<lparr>start = 0, end' = 3\<rparr> smiley \<and>
   recognize hone \<lparr>start = 0, end' = 1\<rparr> smiley \<and>
   toNFA (smiley @ [cu CHR ''.'']) [] = (None, hone)"
  using eval_pair_match eval_pair_postfix eval_pair_postfix_dot
  by (simp add: eval_pair_tree eval_pair_compile)

subsection \<open>Claim C3\<close>

text \<open>
  Claim C3 does not hold of the code. On the pattern of a single backslash the rule
  \<open>Char\<close> requires a character after the backslash and the pattern is exhausted, yet the
  parser does not fail: \<open>next\<close> reads \<open>undefined\<close> past the end, matches it against
  itself, and returns it as the label of a leaf, with the cursor beyond the end of the
  pattern. Where a group is to be closed, the sibling path, the exhausted pattern is
  detected: the pattern \<open>(a\<close> fails, with the error of \<open>match\<close>.
\<close>

theorem parse_trailing_backslash:
  "toParseTree [cu (CHR 0x5C)] g =
     Inr (node (js ''Expr'') [node (js ''Term'') [node (js ''Factor'') [node (js ''Atom'')
            [node (js ''Char'') [leaf (Some [cu (CHR 0x5C)]), leaf None]]]]],
          \<lparr>pattern = [cu (CHR 0x5C)], pos = 2\<rparr>) \<and>
   toParseTree [cu CHR ''('', cu CHR ''a''] g = Inl (UnexpectedSymbol (Some (cu CHR '')'')))"
  by (cases g) (simp add: char_r_def match_def next_ch_def peek_def hasMoreChars_def isMetaChar_def
      str_def toParseTree_def expr.simps term_r.simps factor.simps atom.simps)

subsection \<open>Claim C4\<close>

text \<open>
  Claim C4. For fragments A and B that no operator has consumed yet (two fragments of the
  store on disjoint sets of states) and every word: the union of A and B matches the word
  if and only if A matches it or B matches it, A and B taken in the store before the union.
\<close>

theorem union_matches:
  "frag h A S \<Longrightarrow> frag h B T \<Longrightarrow> S \<inter> T = {} \<Longrightarrow> union_nfa A B h = (N, h') \<Longrightarrow>
     recognize h' N w \<longleftrightarrow> recognize h A w \<or> recognize h B w"
proof -
  assume f: "frag h A S" "frag h B T" "S \<inter> T = {}" and r: "union_nfa A B h = (N, h')"
  note u = union_correct[OF f r]
  from recognize_lang[OF u(1)] u(2) recognize_lang[OF f(1)] recognize_lang[OF f(2)]
  show ?thesis by simp
qed

theorem union_matches_witness:
  "recognize (snd (union_nfa \<lparr>start = 0, end' = 1\<rparr> \<lparr>start = 2, end' = 3\<rparr> hab))
             (fst (union_nfa \<lparr>start = 0, end' = 1\<rparr> \<lparr>start = 2, end' = 3\<rparr> hab)) [cu CHR ''b''] \<and>
   \<not> recognize (snd (union_nfa \<lparr>start = 0, end' = 1\<rparr> \<lparr>start = 2, end' = 3\<rparr> hab))
             (fst (union_nfa \<lparr>start = 0, end' = 1\<rparr> \<lparr>start = 2, end' = 3\<rparr> hab))
             [cu CHR ''a'', cu CHR ''b'']"
proof -
  let ?A = "\<lparr>start = 0, end' = 1\<rparr>" and ?B = "\<lparr>start = 2, end' = 3\<rparr>"
  have dj: "{0::nat, 1} \<inter> {2, 3} = {}" by simp
  have r: "union_nfa ?A ?B hab = (fst (union_nfa ?A ?B hab), snd (union_nfa ?A ?B hab))" by simp
  note u = union_matches[OF hab_frags(1) hab_frags(2) dj r]
  from u[of "[cu CHR ''b'']"] u[of "[cu CHR ''a'', cu CHR ''b'']"] hab_recognize show ?thesis
    by simp
qed

subsection \<open>Claim C5\<close>

text \<open>
  Claim C5, as amended. For a fragment A that no operator has consumed yet and every word w:
  the closure of A matches w if and only if w is empty or can be split, between code points,
  into one or more consecutive words each of which A matches, A taken in the store before
  the closure. A split is between code points when the code points of w are those of the
  parts, one part after the other.
\<close>

theorem closure_matches:
  "frag h A S \<Longrightarrow> closure A h = (N, h') \<Longrightarrow>
     recognize h' N w \<longleftrightarrow>
       (w = [] \<or> (\<exists>ws. ws \<noteq> [] \<and> w = concat ws \<and> codePoints w = concat (map codePoints ws) \<and>
                        (\<forall>u\<in>set ws. recognize h A u)))"
proof -
  assume f: "frag h A S" and r: "closure A h = (N, h')"
  note u = closure_correct[OF f r]
  have rec': "recognize h' N w \<longleftrightarrow> codePoints w \<in> star (lang h A)"
    using recognize_lang[OF u(1)] u(2) by simp
  have recA: "recognize h A v \<longleftrightarrow> codePoints v \<in> lang h A" for v
    by (rule recognize_lang[OF f])
  show ?thesis unfolding rec'
  proof
    assume "codePoints w \<in> star (lang h A)"
    then obtain kss where k: "codePoints w = concat kss" "set kss \<subseteq> lang h A"
      by (auto simp: star_def)
    show "w = [] \<or> (\<exists>ws. ws \<noteq> [] \<and> w = concat ws \<and>
        codePoints w = concat (map codePoints ws) \<and> (\<forall>u\<in>set ws. recognize h A u))"
    proof (cases "kss = []")
      case True
      with k have "w = []" by simp
      then show ?thesis by simp
    next
      case False
      let ?ws = "map concat kss"
      have seg: "codePoints (concat ks) = ks" if "ks \<in> set kss" for ks
        using codePoints_segments[OF k(1) that] .
      have cc: "concat (concat xss) = concat (map concat xss)" for xss :: "jstring list list"
        by (induction xss) simp_all
      have "concat (codePoints w) = concat (concat kss)" using k(1) by simp
      then have 1: "w = concat ?ws" by (simp add: cc)
      have "map codePoints ?ws = kss" using seg by (simp add: map_idI)
      with k(1) have 2: "codePoints w = concat (map codePoints ?ws)" by simp
      have 3: "\<forall>u\<in>set ?ws. recognize h A u" using seg k(2) by (auto simp: recA)
      from False have 4: "?ws \<noteq> []" by simp
      from 1 2 3 4 show ?thesis by blast
    qed
  next
    assume "w = [] \<or> (\<exists>ws. ws \<noteq> [] \<and> w = concat ws \<and>
        codePoints w = concat (map codePoints ws) \<and> (\<forall>u\<in>set ws. recognize h A u))"
    then show "codePoints w \<in> star (lang h A)"
    proof
      assume "w = []"
      then have "codePoints w = concat []" by simp
      then show ?thesis unfolding star_def by (intro CollectI exI[of _ "[]"]) simp
    next
      assume "\<exists>ws. ws \<noteq> [] \<and> w = concat ws \<and>
        codePoints w = concat (map codePoints ws) \<and> (\<forall>u\<in>set ws. recognize h A u)"
      then obtain ws where "codePoints w = concat (map codePoints ws)"
        "\<forall>u\<in>set ws. recognize h A u" by auto
      then have "codePoints w = concat (map codePoints ws) \<and> set (map codePoints ws) \<subseteq> lang h A"
        by (auto simp: recA)
      then show ?thesis unfolding star_def by blast
    qed
  qed
qed

theorem closure_matches_witness:
  "recognize (snd (closure \<lparr>start = 0, end' = 1\<rparr> hab))
             (fst (closure \<lparr>start = 0, end' = 1\<rparr> hab)) [cu CHR ''a'', cu CHR ''a''] \<and>
   recognize (snd (closure \<lparr>start = 0, end' = 1\<rparr> hab))
             (fst (closure \<lparr>start = 0, end' = 1\<rparr> hab)) [] \<and>
   \<not> recognize (snd (closure \<lparr>start = 0, end' = 1\<rparr> hab))
             (fst (closure \<lparr>start = 0, end' = 1\<rparr> hab)) [cu CHR ''b'']"
proof -
  let ?A = "\<lparr>start = 0, end' = 1\<rparr>"
  let ?aa = "[cu CHR ''a'', cu CHR ''a'']"
  have r: "closure ?A hab = (fst (closure ?A hab), snd (closure ?A hab))" by simp
  note u = closure_matches[OF hab_frags(1) r]
  have "?aa = concat [[cu CHR ''a''], [cu CHR ''a'']] \<and>
      codePoints ?aa = concat (map codePoints [[cu CHR ''a''], [cu CHR ''a'']]) \<and>
      (\<forall>u\<in>set [[cu CHR ''a''], [cu CHR ''a'']]. recognize hab ?A u)"
    using hab_recognize by simp
  then have 1: "\<exists>ws. ws \<noteq> [] \<and> ?aa = concat ws \<and> codePoints ?aa = concat (map codePoints ws) \<and>
      (\<forall>u\<in>set ws. recognize hab ?A u)"
    by (intro exI[of _ "[[cu CHR ''a''], [cu CHR ''a'']]"]) simp
  have 2: "\<not> (\<exists>ws. ws \<noteq> [] \<and> [cu CHR ''b''] = concat ws \<and>
      codePoints [cu CHR ''b''] = concat (map codePoints ws) \<and> (\<forall>u\<in>set ws. recognize hab ?A u))"
  proof
    assume "\<exists>ws. ws \<noteq> [] \<and> [cu CHR ''b''] = concat ws \<and>
      codePoints [cu CHR ''b''] = concat (map codePoints ws) \<and> (\<forall>u\<in>set ws. recognize hab ?A u)"
    then obtain ws where ws: "[cu CHR ''b''] = concat ws" "\<forall>u\<in>set ws. u = [cu CHR ''a'']"
      using hab_recognize by auto
    then have "cu CHR ''b'' \<in> set (concat ws)" by (metis list.set_intros(1))
    with ws(2) show False by auto
  qed
  from u[of ?aa] u[of "[]"] u[of "[cu CHR ''b'']"] 1 2 show ?thesis by simp
qed

text \<open>
  Claim C5 as stated fails where a split falls inside a surrogate pair. The union of the
  fragments of the two lone surrogates matches each of them; the word of the two, one after
  the other, splits into them, but the matcher reads it as the one code point U+1F600, and
  the closure does not match it.
\<close>

theorem closure_split_pair_counterexample:
  "union_nfa \<lparr>start = 0, end' = 1\<rparr> \<lparr>start = 2, end' = 3\<rparr>
     (snd (fromSymbol (Some [0xDE00]) (snd (fromSymbol (Some [0xD83D]) []))))
     = (\<lparr>start = 4, end' = 5\<rparr>, hsur) \<and>
   recognize hsur \<lparr>start = 4, end' = 5\<rparr> [0xD83D] \<and>
   recognize hsur \<lparr>start = 4, end' = 5\<rparr> [0xDE00] \<and>
   smiley = concat [[0xD83D], [0xDE00]] \<and>
   \<not> recognize (snd (closure \<lparr>start = 4, end' = 5\<rparr> hsur))
       (fst (closure \<lparr>start = 4, end' = 5\<rparr> hsur)) smiley"
  using eval_hsur eval_hsur_match eval_hsur_closure by (simp add: smiley_def)

subsection \<open>Claim C6\<close>

text \<open>
  Claim C6, as amended. Each of the five composition operators, applied to fragments that no operator
  has consumed yet, returns a fragment in which exactly one state accepts, its end state,
  and the end states of the fragments it consumed no longer accept. So every fragment that
  the tree compiler returns, for any tree and at any depth of its recursion, has exactly
  one accepting state among the states allocated for it, its end state; and so has the
  fragment that the postfix compiler returns. This holds when an operator returns, not at
  every point inside it.
\<close>

theorem single_accept_state:
  "(frag h A S \<and> frag h B T \<and> S \<inter> T = {} \<longrightarrow>
      (case concat_nfa A B h of (N, h') \<Rightarrow>
         frag h' N (S \<union> T) \<and> accepting h' (S \<union> T) = {end' N} \<and>
         \<not> isEnd (deref h' (end' A))) \<and>
      (case union_nfa A B h of (N, h') \<Rightarrow>
         frag h' N (S \<union> T \<union> {length h, length h + 1}) \<and>
         accepting h' (S \<union> T \<union> {length h, length h + 1}) = {end' N} \<and>
         \<not> isEnd (deref h' (end' A)) \<and> \<not> isEnd (deref h' (end' B)))) \<and>
   (frag h A S \<longrightarrow>
      (case closure A h of (N, h') \<Rightarrow>
         frag h' N (S \<union> {length h, length h + 1}) \<and>
         accepting h' (S \<union> {length h, length h + 1}) = {end' N} \<and>
         \<not> isEnd (deref h' (end' A))) \<and>
      (case zeroOrOne A h of (N, h') \<Rightarrow>
         frag h' N (S \<union> {length h, length h + 1}) \<and>
         accepting h' (S \<union> {length h, length h + 1}) = {end' N} \<and>
         \<not> isEnd (deref h' (end' A))) \<and>
      (case oneOrMore A h of (N, h') \<Rightarrow>
         frag h' N (S \<union> {length h, length h + 1}) \<and>
         accepting h' (S \<union> {length h, length h + 1}) = {end' N} \<and>
         \<not> isEnd (deref h' (end' A)))) \<and>
   (toNFAfromParseTree t h0 = Inr (N0, h1) \<longrightarrow>
      frag h1 N0 {length h0..<length h1} \<and> accepting h1 {length h0..<length h1} = {end' N0}) \<and>
   (toNFA ts h0 = (Some N2, h2) \<longrightarrow>
      (\<exists>lo hi. frag h2 N2 {lo..<hi} \<and> accepting h2 {lo..<hi} = {end' N2}))"
proof (intro conjI impI)
  assume a: "frag h A S \<and> frag h B T \<and> S \<inter> T = {}"
  then have f: "frag h A S" "frag h B T" "S \<inter> T = {}" by auto
  obtain N h' where r: "concat_nfa A B h = (N, h')" by (cases "concat_nfa A B h")
  note u = concat_correct[OF f r]
  from u(1) u(5) frag_accepting[OF u(1)] r
  show "case concat_nfa A B h of (N, h') \<Rightarrow>
         frag h' N (S \<union> T) \<and> accepting h' (S \<union> T) = {end' N} \<and>
         \<not> isEnd (deref h' (end' A))" by simp
next
  assume a: "frag h A S \<and> frag h B T \<and> S \<inter> T = {}"
  then have f: "frag h A S" "frag h B T" "S \<inter> T = {}" by auto
  obtain N h' where r: "union_nfa A B h = (N, h')" by (cases "union_nfa A B h")
  note u = union_correct[OF f r]
  from u(1) u(5) u(6) frag_accepting[OF u(1)] r
  show "case union_nfa A B h of (N, h') \<Rightarrow>
         frag h' N (S \<union> T \<union> {length h, length h + 1}) \<and>
         accepting h' (S \<union> T \<union> {length h, length h + 1}) = {end' N} \<and>
         \<not> isEnd (deref h' (end' A)) \<and> \<not> isEnd (deref h' (end' B))" by simp
next
  assume f: "frag h A S"
  obtain N h' where r: "closure A h = (N, h')" by (cases "closure A h")
  note u = closure_correct[OF f r]
  from u(1) u(5) frag_accepting[OF u(1)] r
  show "case closure A h of (N, h') \<Rightarrow>
         frag h' N (S \<union> {length h, length h + 1}) \<and>
         accepting h' (S \<union> {length h, length h + 1}) = {end' N} \<and>
         \<not> isEnd (deref h' (end' A))" by simp
next
  assume f: "frag h A S"
  obtain N h' where r: "zeroOrOne A h = (N, h')" by (cases "zeroOrOne A h")
  note u = zeroOrOne_correct[OF f r]
  from u(1) u(5) frag_accepting[OF u(1)] r
  show "case zeroOrOne A h of (N, h') \<Rightarrow>
         frag h' N (S \<union> {length h, length h + 1}) \<and>
         accepting h' (S \<union> {length h, length h + 1}) = {end' N} \<and>
         \<not> isEnd (deref h' (end' A))" by simp
next
  assume f: "frag h A S"
  obtain N h' where r: "oneOrMore A h = (N, h')" by (cases "oneOrMore A h")
  note u = oneOrMore_correct[OF f r]
  from u(1) u(5) frag_accepting[OF u(1)] r
  show "case oneOrMore A h of (N, h') \<Rightarrow>
         frag h' N (S \<union> {length h, length h + 1}) \<and>
         accepting h' (S \<union> {length h, length h + 1}) = {end' N} \<and>
         \<not> isEnd (deref h' (end' A))" by simp
next
  assume "toNFAfromParseTree t h0 = Inr (N0, h1)"
  from compile_built[OF this] have f: "frag h1 N0 {length h0..<length h1}"
    by (simp add: built_def)
  then show "frag h1 N0 {length h0..<length h1}" .
  from frag_accepting[OF f] show "accepting h1 {length h0..<length h1} = {end' N0}" .
next
  assume "toNFA ts h0 = (Some N2, h2)"
  from toNFA_frag[OF this] obtain lo hi where f: "frag h2 N2 {lo..<hi}" by auto
  with frag_accepting[OF f]
  show "\<exists>lo hi. frag h2 N2 {lo..<hi} \<and> accepting h2 {lo..<hi} = {end' N2}" by blast
qed

theorem single_accept_state_witness:
  "accepting (snd (concat_nfa \<lparr>start = 0, end' = 1\<rparr> \<lparr>start = 2, end' = 3\<rparr> hab))
      ({0, 1} \<union> {2, 3}) = {3} \<and>
   accepting (snd (union_nfa \<lparr>start = 0, end' = 1\<rparr> \<lparr>start = 2, end' = 3\<rparr> hab))
      ({0, 1} \<union> {2, 3} \<union> {4, 5}) = {5} \<and>
   accepting (snd (closure \<lparr>start = 0, end' = 1\<rparr> hab)) ({0, 1} \<union> {4, 5}) = {5} \<and>
   accepting (snd (zeroOrOne \<lparr>start = 0, end' = 1\<rparr> hab)) ({0, 1} \<union> {4, 5}) = {5} \<and>
   accepting (snd (oneOrMore \<lparr>start = 0, end' = 1\<rparr> hab)) ({0, 1} \<union> {4, 5}) = {5} \<and>
   accepting hstar {0..<4} = {3}"
proof -
  let ?A = "\<lparr>start = 0, end' = 1\<rparr>" and ?B = "\<lparr>start = 2, end' = 3\<rparr>"
  let ?t = "node (js ''Factor'') [node (js ''Atom'')
       [node (js ''Char'') [leaf (Some [cu CHR ''a''])]], leaf (Some [cu CHR ''*''])]"
  have dj: "{0::nat, 1} \<inter> {2, 3} = {}" by simp
  note t = single_accept_state[of hab ?A "{0, 1}" ?B "{2, 3}"
      ?t "[]" ?B hstar "[cu CHR ''a'', cu CHR ''*'']" ?B hstar]
  note b1 = mp[OF t[THEN conjunct1] conjI[OF hab_frags(1) conjI[OF hab_frags(2) dj]]]
  note b2 = mp[OF t[THEN conjunct2, THEN conjunct1] hab_frags(1)]
  note b3 = mp[OF t[THEN conjunct2, THEN conjunct2, THEN conjunct1] eval_tree_star]
  note b4 = mp[OF t[THEN conjunct2, THEN conjunct2, THEN conjunct2] eval_postfix_star]
  have e: "end' (fst (concat_nfa ?A ?B hab)) = 3" "end' (fst (union_nfa ?A ?B hab)) = 5"
    "end' (fst (closure ?A hab)) = 5" "end' (fst (zeroOrOne ?A hab)) = 5"
    "end' (fst (oneOrMore ?A hab)) = 5"
    by (simp_all add: concat_nfa_def union_nfa_def closure_def zeroOrOne_def oneOrMore_def
        createState_def Let_def hab_frags(5))
  have l: "length hstar = 4" by (simp add: hstar_def)
  from b1[THEN conjunct1] e(1)
  have 1: "accepting (snd (concat_nfa ?A ?B hab)) ({0, 1} \<union> {2, 3}) = {3}"
    by (simp add: case_prod_beta)
  from b1[THEN conjunct2] e(2)
  have 2: "accepting (snd (union_nfa ?A ?B hab)) ({0, 1} \<union> {2, 3} \<union> {4, 5}) = {5}"
    by (simp add: case_prod_beta hab_frags(5))
  from b2[THEN conjunct1] e(3)
  have 3: "accepting (snd (closure ?A hab)) ({0, 1} \<union> {4, 5}) = {5}"
    by (simp add: case_prod_beta hab_frags(5))
  from b2[THEN conjunct2, THEN conjunct1] e(4)
  have 4: "accepting (snd (zeroOrOne ?A hab)) ({0, 1} \<union> {4, 5}) = {5}"
    by (simp add: case_prod_beta hab_frags(5))
  from b2[THEN conjunct2, THEN conjunct2] e(5)
  have 5: "accepting (snd (oneOrMore ?A hab)) ({0, 1} \<union> {4, 5}) = {5}"
    by (simp add: case_prod_beta hab_frags(5))
  from b3 l have 6: "accepting hstar {0..<4} = {3}" by simp
  from 1 2 3 4 5 6 show ?thesis by blast
qed

text \<open>
  Claim C6 as stated fails inside \<open>union\<close>, \<open>closure\<close>, \<open>zeroOrOne\<close> and
  \<open>oneOrMore\<close>: they create the new accept state first and clear the flag of the end
  state they consume afterwards. In \<open>union\<close> of the fragments of \<open>a\<close> and \<open>b\<close>, after
  the statement \<open>const end = createState(true)\<close>, three states accept: the new end state
  and the end states of both operands. In each of the other three, applied to the fragment
  of \<open>a\<close>, two states accept after the same statement: the new end state and the end
  state of the operand.
\<close>

theorem accept_flag_order_counterexample:
  "map isEnd (union_trace \<lparr>start = 0, end' = 1\<rparr> \<lparr>start = 2, end' = 3\<rparr> hab ! 3)
     = [False, True, False, True, False, True] \<and>
   map isEnd (closure_trace \<lparr>start = 0, end' = 1\<rparr> ha ! 1) = [False, True, False, True] \<and>
   map isEnd (zeroOrOne_trace \<lparr>start = 0, end' = 1\<rparr> ha ! 1) = [False, True, False, True] \<and>
   map isEnd (oneOrMore_trace \<lparr>start = 0, end' = 1\<rparr> ha ! 1) = [False, True, False, True] \<and>
   snd (union_nfa \<lparr>start = 0, end' = 1\<rparr> \<lparr>start = 2, end' = 3\<rparr> hab)
     = last (union_trace \<lparr>start = 0, end' = 1\<rparr> \<lparr>start = 2, end' = 3\<rparr> hab) \<and>
   snd (closure \<lparr>start = 0, end' = 1\<rparr> ha) = last (closure_trace \<lparr>start = 0, end' = 1\<rparr> ha) \<and>
   snd (zeroOrOne \<lparr>start = 0, end' = 1\<rparr> ha) = last (zeroOrOne_trace \<lparr>start = 0, end' = 1\<rparr> ha) \<and>
   snd (oneOrMore \<lparr>start = 0, end' = 1\<rparr> ha) = last (oneOrMore_trace \<lparr>start = 0, end' = 1\<rparr> ha)"
  using eval_union_trace eval_wrap_trace trace_last by simp

subsection \<open>Claim C7\<close>

text \<open>
  Claim C7. The pattern of the three characters \<open>a\<close>, backslash, \<open>*\<close> compiles to an
  automaton that matches the two-character word \<open>a*\<close> and no other word.
\<close>

theorem backslash_escapes:
  "\<exists>N g' h'. toNFAFromInfixExp [cu CHR ''a'', cu (CHR 0x5C), cu CHR ''*''] (g, h) = Inr (N, g', h') \<and>
      (\<forall>w. recognize h' N w \<longleftrightarrow> w = js ''a*'')"
proof -
  let ?e = "ETerm (TSeq (FAtom (AChar (Lit (cu CHR ''a'')))) (TFactor (FAtom (AChar (Esc (cu CHR ''*''))))))"
  have wf: "wf_expr ?e" by (simp add: special_def)
  from infix_recognize[OF wf, of g h] obtain N g' h' where
    r: "toNFAFromInfixExp (pat_expr ?e) (g, h) = Inr (N, g', h')"
    "\<forall>w. recognize h' N w \<longleftrightarrow> w \<in> lang_expr ?e \<and> codePoints w = symbols w" by auto
  have "lang_expr ?e = {js ''a*''}" by (auto simp: conc_def js_def)
  moreover have "codePoints (js ''a*'') = symbols (js ''a*'')" by (simp add: js_def)
  ultimately have "\<forall>w. recognize h' N w \<longleftrightarrow> w = js ''a*''" using r(2) by auto
  with r(1) show ?thesis by auto
qed

theorem backslash_escapes_witness:
  "\<exists>N g' h'. toNFAFromInfixExp [cu CHR ''a'', cu (CHR 0x5C), cu CHR ''*''] (\<lparr>pattern = [], pos = 0\<rparr>, [])
        = Inr (N, g', h') \<and>
      recognize h' N (js ''a*'') \<and> \<not> recognize h' N (js ''aaaa'') \<and> \<not> recognize h' N [cu CHR ''a''] \<and>
      \<not> recognize h' N []"
  using backslash_escapes[of "\<lparr>pattern = [], pos = 0\<rparr>" "[]"] by (auto simp: js_def)

subsection \<open>Claim C8\<close>

text \<open>
  Claim C8. In the automaton that either compiler returns (from a pattern, from any parse
  tree or from any token stream) every state reachable from the start state has at most
  two epsilon targets and does not have both a symbol transition and an epsilon target;
  and \<open>addNextState\<close> adds to the set of next states only states that have no epsilon
  target.
\<close>

theorem thompson_shape:
  "(toNFAFromInfixExp p (g, h) = Inr (N, g', h') \<longrightarrow> thompson h' N) \<and>
   (toNFAfromParseTree t h = Inr (N, h') \<longrightarrow> thompson h' N) \<and>
   (toNFA ts h = (Some N, h') \<longrightarrow> thompson h' N) \<and>
   (x \<in> set (fst (addNextState h s (ns, vs))) \<longrightarrow>
      x \<in> set ns \<or> epsilonTransitions (deref h x) = [])"
proof (intro conjI impI)
  assume r: "toNFAFromInfixExp p (g, h) = Inr (N, g', h')"
  show "thompson h' N"
  proof (cases "p = []")
    case True
    with r have "fromEpsilon h = (N, h')"
      by (auto simp: toNFAFromInfixExp_def split: prod.splits)
    from built_fromEpsilon[OF this] show ?thesis by (auto simp: built_def intro: frag_thompson)
  next
    case False
    with r obtain t where "toNFAfromParseTree t h = Inr (N, h')"
      by (auto simp: toNFAFromInfixExp_def split: sum.splits prod.splits)
    from compile_built[OF this] show ?thesis by (auto simp: built_def intro: frag_thompson)
  qed
next
  assume "toNFAfromParseTree t h = Inr (N, h')"
  from compile_built[OF this] show "thompson h' N" by (auto simp: built_def intro: frag_thompson)
next
  assume "toNFA ts h = (Some N, h')"
  from toNFA_frag[OF this] show "thompson h' N" by (auto intro: frag_thompson)
next
  assume "x \<in> set (fst (addNextState h s (ns, vs)))"
  from addNextState_sound(1)[OF this]
  show "x \<in> set ns \<or> epsilonTransitions (deref h x) = []" by auto
qed

theorem thompson_shape_witness:
  "thompson hstar \<lparr>start = 2, end' = 3\<rparr> \<and>
   epsilonTransitions (deref hstar 2) = [3, 0] \<and> epsilonTransitions (deref hstar 1) = [3, 0] \<and>
   addNextState hstar 2 ([], []) = ([3, 0], [3, 0]) \<and>
   epsilonTransitions (deref hstar 3) = [] \<and> epsilonTransitions (deref hstar 0) = []"
proof -
  let ?N = "\<lparr>start = 2, end' = 3\<rparr>"
  let ?p = "[cu CHR ''a'', cu CHR ''*'']"
  let ?t = "node (js ''Factor'') [node (js ''Atom'')
       [node (js ''Char'') [leaf (Some [cu CHR ''a''])]], leaf (Some [cu CHR ''*''])]"
  have x: "3 \<in> set (fst (addNextState hstar 2 ([], [])))" "0 \<in> set (fst (addNextState hstar 2 ([], [])))"
    by (simp_all add: eval_addNextState_star)
  note t1 = thompson_shape[of ?p "\<lparr>pattern = [], pos = 0\<rparr>" "[]" ?N
      "\<lparr>pattern = ?p, pos = 2\<rparr>" hstar ?t ?p 0 2 "[]" "[]"]
  note t2 = thompson_shape[of ?p "\<lparr>pattern = [], pos = 0\<rparr>" hstar ?N
      "\<lparr>pattern = ?p, pos = 2\<rparr>" hstar ?t ?p 3 2 "[]" "[]"]
  note t3 = thompson_shape[of ?p "\<lparr>pattern = [], pos = 0\<rparr>" hstar ?N
      "\<lparr>pattern = ?p, pos = 2\<rparr>" hstar ?t ?p 0 2 "[]" "[]"]
  note a1 = mp[OF t1[THEN conjunct1] eval_infix_star]
  note a2 = mp[OF t1[THEN conjunct2, THEN conjunct1] eval_tree_star]
  note a3 = mp[OF t1[THEN conjunct2, THEN conjunct2, THEN conjunct1] eval_postfix_star]
  note a4 = mp[OF t2[THEN conjunct2, THEN conjunct2, THEN conjunct2] x(1)]
  note a5 = mp[OF t3[THEN conjunct2, THEN conjunct2, THEN conjunct2] x(2)]
  have e: "epsilonTransitions (deref hstar 2) = [3, 0]" "epsilonTransitions (deref hstar 1) = [3, 0]"
    by (simp_all add: hstar_def deref_def)
  from a4 a5 have "epsilonTransitions (deref hstar 3) = []" "epsilonTransitions (deref hstar 0) = []"
    by simp_all
  with a1 a2 a3 e eval_addNextState_star show ?thesis by simp
qed

subsection \<open>Claim C9\<close>

text \<open>
  Claim C9, as amended. \<open>toNFA\<close> has no \<open>throw\<close> and no statement of it can throw: it
  is a total function whose result is an NFA or \<open>undefined\<close>. Wherever in the token stream
  a quantifier meets an empty stack, or \<open>|\<close> or \<open>.\<close> meets a stack of at most one
  operand, no state is allocated, the stack is left empty (a lone operand is removed), and
  compilation continues with the next token: the result is that of compiling the rest of the
  stream on the store as it is then, and \<open>undefined\<close> if no token follows.
\<close>

theorem toNFA_underflow:
  assumes "fold toNFA_step (codePoints ts1) ([], h) = (st, h1)"
    and "(q \<in> {cu CHR ''*'', cu CHR ''+'', cu CHR ''?''} \<and> st = []) \<or>
         (q \<in> {cu CHR ''|'', cu CHR ''.''} \<and> length st \<le> 1)"
  shows "toNFA (ts1 @ q # ts2) h = (if ts2 = [] then (None, h1) else toNFA ts2 h1)"
proof -
  from assms(2) have ns: "\<not> highSurrogate q" "\<not> lowSurrogate q" by auto
  have cp: "codePoints (ts1 @ q # ts2) = codePoints ts1 @ [q] # codePoints ts2"
    by (rule codePoints_plain[OF ns])
  from assms(2) have step: "toNFA_step [q] (st, h1) = ([], h1)"
  proof
    assume "q \<in> {cu CHR ''*'', cu CHR ''+'', cu CHR ''?''} \<and> st = []"
    then show ?thesis by auto
  next
    assume a: "q \<in> {cu CHR ''|'', cu CHR ''.''} \<and> length st \<le> 1"
    then consider "st = []" | x where "st = [x]" by (cases st; cases "tl st") auto
    then show ?thesis using a by cases auto
  qed
  have "fold toNFA_step (codePoints (ts1 @ q # ts2)) ([], h)
      = fold toNFA_step (codePoints ts2) ([], h1)"
    by (simp add: cp assms(1) step del: toNFA_step.simps)
  then show ?thesis by (simp add: toNFA_def)
qed

theorem toNFA_underflow_witness:
  "toNFA [cu CHR ''a'', cu CHR ''|'', cu CHR ''b''] [] = (Some \<lparr>start = 2, end' = 3\<rparr>, hab) \<and>
   toNFA [cu CHR ''*'', cu CHR ''a''] [] = (Some \<lparr>start = 0, end' = 1\<rparr>, ha) \<and>
   toNFA [cu CHR ''*''] [] = (None, [])"
proof -
  have 1: "fold toNFA_step (codePoints [cu CHR ''a'']) ([], []) = ([\<lparr>start = 0, end' = 1\<rparr>], ha)"
    using fromSymbol_a by simp
  have 2: "fold toNFA_step (codePoints []) ([], []) = ([], [])" by simp
  have b: "toNFA [cu CHR ''b''] ha = (Some \<lparr>start = 2, end' = 3\<rparr>, hab)"
    using fromSymbol_b by (simp add: toNFA_def)
  have a: "toNFA [cu CHR ''a''] [] = (Some \<lparr>start = 0, end' = 1\<rparr>, ha)"
    using fromSymbol_a by (simp add: toNFA_def)
  from toNFA_underflow[OF 1, of "cu CHR ''|''" "[cu CHR ''b'']"]
    toNFA_underflow[OF 2, of "cu CHR ''*''" "[cu CHR ''a'']"]
    toNFA_underflow[OF 2, of "cu CHR ''*''" "[]"] a b
  show ?thesis by simp
qed

text \<open>
  Claim C9 as stated fails: a \<open>|\<close> with one operand on the stack is not skipped, since
  skipping it would leave the operand on the stack. On \<open>a|\<close> the result is
  \<open>undefined\<close>, on \<open>a\<close> it is the automaton of \<open>a\<close>; the step of \<open>|\<close> empties a
  stack of one operand.
\<close>

theorem toNFA_lone_operand_counterexample:
  "fst (toNFA [cu CHR ''a'', cu CHR ''|''] []) = None \<and>
   fst (toNFA [cu CHR ''a''] []) = Some \<lparr>start = 0, end' = 1\<rparr> \<and>
   toNFA_step [cu CHR ''|''] ([\<lparr>start = 0, end' = 1\<rparr>], []) = ([], [])"
  by (simp add: toNFA_def fromSymbol_def createState_def Let_def)

subsection \<open>Claim C10\<close>

text \<open>
  Claim C10, as amended. The pattern and the cursor are shared by all invocations, and
  \<open>toParseTree\<close> assigns both before it parses: its result, and the state it leaves,
  do not depend on the state it finds.
\<close>

theorem toParseTree_resets_state:
  "toParseTree regex g = toParseTree regex g'"
  by (cases g; cases g') (simp add: toParseTree_def)

text \<open>
  Claim C10 as stated fails: the scan position is not local to an invocation. An invocation
  finds the pattern and cursor that the previous one left in the module's two variables and
  leaves its own there.
\<close>

theorem toParseTree_shared_state_counterexample:
  "toParseTree [cu CHR ''a''] \<lparr>pattern = (js ''xyz''), pos = 2\<rparr> =
     Inr (node (js ''Expr'') [node (js ''Term'') [node (js ''Factor'') [node (js ''Atom'')
            [node (js ''Char'') [leaf (Some [cu CHR ''a''])]]]]],
          \<lparr>pattern = [cu CHR ''a''], pos = 1\<rparr>)"
  by (simp add: char_r_def match_def next_ch_def peek_def hasMoreChars_def isMetaChar_def
      str_def toParseTree_def expr.simps term_r.simps factor.simps atom.simps)

end
